theory Spec2Isabelle
  imports Complex_Main "HOL-Library.Multiset"
begin

unbundle bit_operations_syntax

section \<open>Data model (types/game)\<close>

text \<open>
  A shallow embedding of the move engine (\<open>game/gameLogic\<close>) and of the game state
  controller (\<open>game/gameState\<close>) of the 2048 game.

  JavaScript numbers are idealised: quantities the code treats as arbitrary numbers (tile
  values, scores, probabilities, configuration entries, random draws) are \<open>real\<close>; loop
  indices, cell coordinates and counters are \<open>int\<close> or \<open>nat\<close>. A finite double is
  the real number it denotes. The rounding of a sum of doubles is modelled where a result
  turns on it, in the running total of \<open>selectSpawnValue\<close>, whose addition is an argument
  of the model; elsewhere sums and products are exact. NaN and infinities are outside the
  model.

  The effects of the code are arguments and results: the module counter
  \<open>tileIdCounter\<close> is passed in and returned, the clock \<open>Date.now()\<close> is a function
  \<open>now\<close> of that counter, every draw of \<open>Math.random()\<close> is an argument, and an exception
  is a result \<open>Inl e\<close>. Objects are values: a copy is equal to its original, and
  \<open>reference-equal\<close> is read as equal.
\<close>

datatype Direction = Up | Down | Left | Right

datatype GameStatus = Playing | Won | Lost

record Cell =
  row :: int
  col :: int

text \<open>Field \<open>id\<close> is \<open>tile_id\<close>, field \<open>value\<close> is \<open>tile_value\<close>; an absent
  \<open>mergedFrom\<close> is \<open>None\<close>.\<close>

datatype Tile =
  Tile (tile_id: string) (tile_value: real) (position: Cell) (mergedFrom: "Tile list option")

text \<open>A grid cell is \<open>Tile | null\<close>: \<open>None\<close> is \<open>null\<close>.\<close>

type_synonym Grid = "Tile option list list"

text \<open>Field \<open>value\<close> of a spawn entry is \<open>spawn_value\<close>.\<close>

record SpawnConfig =
  spawn_value :: real
  probability :: real

record GameConfig =
  gridSize :: real
  targetValue :: real
  spawnValues :: "SpawnConfig list"
  maxUndoStates :: "real option"

datatype GameState =
  GameState (grid: Grid) (score: real) (status: GameStatus)
    (previousStates: "GameState list") (config: GameConfig) (moveCount: int)
    (wonAndContinued: "bool option")

text \<open>Field \<open>score\<close> of a move result is \<open>scoreGained\<close>.\<close>

record MoveResult =
  newState :: GameState
  moved :: bool
  scoreGained :: real
  mergedTiles :: "Tile list"

text \<open>What the code throws: a \<open>TypeError\<close> for a property read on \<open>undefined\<close>, a
  \<open>RangeError\<close> for an invalid array length, \<open>Error msg\<close> for an explicit
  \<open>throw new Error(msg)\<close>. \<open>RowGrowth\<close> stands for an assignment outside a row,
  which JavaScript accepts by growing the array; no grid of the model can hold its result,
  and no call of the code reaches it (every write goes to a cell found inside the grid).\<close>

datatype error = TypeError | RangeError | Error string | RowGrowth

section \<open>Grid primitives (game/gameLogic)\<close>

fun decimal :: "nat \<Rightarrow> string" where
  "decimal n =
     (if n < 10 then [''0123456789'' ! n]
      else decimal (n div 10) @ [''0123456789'' ! (n mod 10)])"

declare decimal.simps [simp del]

text \<open>\<open>generateTileId\<close>: \<open>now k\<close> is the reading of \<open>Date.now()\<close> at the call that finds
  the module counter \<open>tileIdCounter\<close> at \<open>k\<close>; the counter is returned incremented.\<close>

definition generateTileId :: "(nat \<Rightarrow> nat) \<Rightarrow> nat \<Rightarrow> string \<times> nat" where
  "generateTileId now k = (''tile-'' @ decimal (now k) @ ''-'' @ decimal k, Suc k)"

definition createTile :: "(nat \<Rightarrow> nat) \<Rightarrow> nat \<Rightarrow> Cell \<Rightarrow> real \<Rightarrow> Tile \<times> nat" where
  "createTile now k pos v =
     (let (i, k') = generateTileId now k in (Tile i v pos None, k'))"

definition createEmptyGrid :: "nat \<Rightarrow> Grid" where
  "createEmptyGrid n = replicate n (replicate n None)"

text \<open>The spread copies of \<open>cloneGrid\<close> are written out; \<open>mergedFrom\<close> entries are
  copied one level deep, as in the source.\<close>

definition copyTile :: "Tile \<Rightarrow> Tile" where
  "copyTile t = Tile (tile_id t) (tile_value t) (position t) (mergedFrom t)"

definition cloneTile :: "Tile \<Rightarrow> Tile" where
  "cloneTile t =
     Tile (tile_id t) (tile_value t) \<lparr>row = row (position t), col = col (position t)\<rparr>
       (map_option (map copyTile) (mergedFrom t))"

definition cloneGrid :: "Grid \<Rightarrow> Grid" where
  "cloneGrid g = map (map (map_option cloneTile)) g"

definition rowTiles :: "Tile option list \<Rightarrow> Tile list" where
  "rowTiles r = concat (map (\<lambda>x. case x of None \<Rightarrow> [] | Some t \<Rightarrow> [t]) r)"

definition getAllTiles :: "Grid \<Rightarrow> Tile list" where
  "getAllTiles g = concat (map rowTiles g)"

definition emptyInRow :: "nat \<Rightarrow> Tile option list \<Rightarrow> Cell list" where
  "emptyInRow r xs =
     concat (map (\<lambda>c. if xs ! c = None then [\<lparr>row = int r, col = int c\<rparr>] else [])
       [0..<length xs])"

definition getEmptyCells :: "Grid \<Rightarrow> Cell list" where
  "getEmptyCells g = concat (map (\<lambda>r. emptyInRow r (g ! r)) [0..<length g])"

section \<open>Spawn selector\<close>

text \<open>The loop of \<open>selectSpawnValue\<close>. The statement \<open>cumulative += config.probability\<close>
  adds two JavaScript numbers, and that addition rounds its result to a double: the
  addition is the argument \<open>add\<close> of the loop, and nothing is assumed of it. The test
  \<open>random <= cumulative\<close> compares the values of two doubles.\<close>

fun selectLoop ::
  "(real \<Rightarrow> real \<Rightarrow> real) \<Rightarrow> real \<Rightarrow> real \<Rightarrow> SpawnConfig list \<Rightarrow> real option" where
  "selectLoop add random cumulative [] = None"
| "selectLoop add random cumulative (c # cs) =
     (let cumulative' = add cumulative (probability c)
      in if random \<le> cumulative' then Some (spawn_value c)
         else selectLoop add random cumulative' cs)"

text \<open>\<open>selectSpawnValue\<close> with the draw of \<open>Math.random()\<close> as the argument \<open>random\<close>.
  On an empty table the fallback reads \<open>spawnValues[0].value\<close> of \<open>undefined\<close>.\<close>

definition selectSpawnValue ::
  "(real \<Rightarrow> real \<Rightarrow> real) \<Rightarrow> SpawnConfig list \<Rightarrow> real \<Rightarrow> error + real" where
  "selectSpawnValue add svs random =
     (case selectLoop add random 0 svs of
        Some v \<Rightarrow> Inr v
      | None \<Rightarrow> (case svs of [] \<Rightarrow> Inl TypeError | c # _ \<Rightarrow> Inr (spawn_value c)))"

text \<open>The spec's wording of the selection rule: the cumulative mass of entry \<open>i\<close> is the
  mass accumulated over the entries \<open>0..i\<close>, taken in the order of the table with the
  addition of the numbers, and the entry chosen is the first whose cumulative mass reaches
  the draw.\<close>

definition cumulativeMass ::
  "(real \<Rightarrow> real \<Rightarrow> real) \<Rightarrow> SpawnConfig list \<Rightarrow> nat \<Rightarrow> real" where
  "cumulativeMass add svs i = foldl add 0 (map probability (take (Suc i) svs))"

definition firstReaching ::
  "(real \<Rightarrow> real \<Rightarrow> real) \<Rightarrow> SpawnConfig list \<Rightarrow> real \<Rightarrow> nat option" where
  "firstReaching add svs r = find (\<lambda>i. r \<le> cumulativeMass add svs i) [0..<length svs]"

definition spec_selectSpawnValue ::
  "(real \<Rightarrow> real \<Rightarrow> real) \<Rightarrow> SpawnConfig list \<Rightarrow> real \<Rightarrow> real" where
  "spec_selectSpawnValue add svs r =
     (case firstReaching add svs r of
        Some i \<Rightarrow> spawn_value (svs ! i)
      | None \<Rightarrow> spawn_value (hd svs))"

subsection \<open>The addition of doubles\<close>

text \<open>The addition that the program performs: IEEE 754 binary64, round to nearest, ties to
  even, on finite values. \<open>pow2 e\<close> is \<open>2^e\<close>, \<open>bitLength n\<close> the number of binary digits
  of \<open>n\<close>, and \<open>binade x\<close> the exponent \<open>e\<close> with \<open>2^e \<le> |x| < 2^(e+1)\<close>, held at
  \<open>-1022\<close> for a subnormal \<open>x\<close>. The unit in the last place of \<open>x\<close> is \<open>2^(e-52)\<close>;
  \<open>roundDouble\<close> takes \<open>x\<close> to the nearest multiple of that unit, and a value halfway
  between two multiples to the even one. A sum beyond the largest double is outside the
  model.\<close>

definition pow2 :: "int \<Rightarrow> real" where
  "pow2 e = (if 0 \<le> e then 2 ^ nat e else 1 / 2 ^ nat (- e))"

function bitLength :: "int \<Rightarrow> int" where
  "bitLength n = (if n \<le> 0 then 0 else bitLength (n div 2) + 1)"
  by pat_completeness auto

termination bitLength
  by (relation "measure nat") auto

declare bitLength.simps [simp del]

definition binade :: "real \<Rightarrow> int" where
  "binade x =
     max (if 1 \<le> \<bar>x\<bar> then bitLength \<lfloor>\<bar>x\<bar>\<rfloor> - 1
          else - bitLength (\<lceil>1 / \<bar>x\<bar>\<rceil> - 1))
         (- 1022)"

definition roundHalfEven :: "real \<Rightarrow> int" where
  "roundHalfEven x =
     (let f = \<lfloor>x\<rfloor>
      in if x - of_int f < 1 / 2 then f
         else if 1 / 2 < x - of_int f then f + 1
         else if even f then f else f + 1)"

definition roundDouble :: "real \<Rightarrow> real" where
  "roundDouble x =
     (if x = 0 then 0
      else (let ulp = pow2 (binade x - 52) in of_int (roundHalfEven (x / ulp)) * ulp))"

definition addDouble :: "real \<Rightarrow> real \<Rightarrow> real" where
  "addDouble x y = roundDouble (x + y)"

text \<open>The table \<open>[{value: 2, probability: 0.1}, {value: 4, probability: 0.2},
  {value: 8, probability: 0.7}]\<close> and the draw \<open>0.30000000000000004\<close>, each literal as the
  double it denotes.\<close>

definition tenthsTable :: "SpawnConfig list" where
  "tenthsTable =
     [\<lparr>spawn_value = 2, probability = 3602879701896397 / 36028797018963968\<rparr>,
      \<lparr>spawn_value = 4, probability = 3602879701896397 / 18014398509481984\<rparr>,
      \<lparr>spawn_value = 8, probability = 3152519739159347 / 4503599627370496\<rparr>]"

definition tenthsDraw :: real where
  "tenthsDraw = 1351079888211149 / 4503599627370496"

section \<open>Config validator\<close>

definition isInteger :: "real \<Rightarrow> bool" where
  "isInteger x = (of_int \<lfloor>x\<rfloor> = x)"

text \<open>The operator \<open>&\<close> converts both operands with ToInt32: truncation towards zero, then
  reduction modulo \<open>2^32\<close> into the signed 32-bit range.\<close>

definition toIntegerPart :: "real \<Rightarrow> int" where
  "toIntegerPart x = (if 0 \<le> x then \<lfloor>x\<rfloor> else \<lceil>x\<rceil>)"

definition toInt32 :: "real \<Rightarrow> int" where
  "toInt32 x = (toIntegerPart x + 2147483648) mod 4294967296 - 2147483648"

definition bitAnd :: "real \<Rightarrow> real \<Rightarrow> int" where
  "bitAnd x y = toInt32 x AND toInt32 y"

definition spawnEntryErrors :: "SpawnConfig \<Rightarrow> string list" where
  "spawnEntryErrors sv =
     (if spawn_value sv \<le> 0 \<or> \<not> isInteger (spawn_value sv)
      then [''Spawn values must be positive integers''] else []) @
     (if probability sv < 0 \<or> probability sv > 1
      then [''Spawn probabilities must be between 0 and 1''] else [])"

definition validateGameConfig :: "GameConfig \<Rightarrow> string list" where
  "validateGameConfig cfg =
     (if gridSize cfg < 3 \<or> gridSize cfg > 6
      then [''Grid size must be between 3 and 6''] else []) @
     (if targetValue cfg \<le> 0 \<or> \<not> isInteger (targetValue cfg)
      then [''Target value must be a positive integer''] else []) @
     (if bitAnd (targetValue cfg) (targetValue cfg - 1) \<noteq> 0
      then [''Target value should be a power of 2''] else []) @
     (if spawnValues cfg = []
      then [''At least one spawn value must be configured'']
      else
        (let totalProbability = foldl (\<lambda>sum sv. sum + probability sv) 0 (spawnValues cfg)
         in if \<bar>totalProbability - 1.0\<bar> > 0.001
            then [''Spawn value probabilities must sum to 1.0''] else []) @
        concat (map spawnEntryErrors (spawnValues cfg)))"

text \<open>Configurations used as concrete inputs.\<close>

definition defaultSpawnValues :: "SpawnConfig list" where
  "defaultSpawnValues =
     [\<lparr>spawn_value = 2, probability = 0.9\<rparr>, \<lparr>spawn_value = 4, probability = 0.1\<rparr>]"

definition DEFAULT_GAME_CONFIG :: GameConfig where
  "DEFAULT_GAME_CONFIG =
     \<lparr>gridSize = 4, targetValue = 2048, spawnValues = defaultSpawnValues,
      maxUndoStates = Some 10\<rparr>"

definition threeViolationsConfig :: GameConfig where
  "threeViolationsConfig =
     \<lparr>gridSize = 2, targetValue = 100, spawnValues = [], maxUndoStates = None\<rparr>"

definition wrappedTargetConfig :: GameConfig where
  "wrappedTargetConfig =
     \<lparr>gridSize = 4, targetValue = 4294967297, spawnValues = defaultSpawnValues,
      maxUndoStates = Some 10\<rparr>"

section \<open>Move engine\<close>

text \<open>What a read \<open>grid[row][col]\<close> gives: \<open>NoRow\<close> when \<open>grid[row]\<close> is
  \<open>undefined\<close> (the read of \<open>[col]\<close> then throws), \<open>Undefined\<close> when the column is outside
  the row, \<open>Null\<close> for an empty cell, \<open>Filled t\<close> for a tile.\<close>

datatype Slot = NoRow | Undefined | Null | Filled Tile

definition readCell :: "Grid \<Rightarrow> Cell \<Rightarrow> Slot" where
  "readCell g c =
     (if row c < 0 \<or> int (length g) \<le> row c then NoRow
      else let r = g ! nat (row c)
           in if col c < 0 \<or> int (length r) \<le> col c then Undefined
              else (case r ! nat (col c) of None \<Rightarrow> Null | Some t \<Rightarrow> Filled t))"

text \<open>An assignment \<open>grid[row][col] = x\<close>: a missing row throws; a column outside the
  row is reported as \<open>RowGrowth\<close>.\<close>

definition writeCell :: "Grid \<Rightarrow> Cell \<Rightarrow> Tile option \<Rightarrow> error + Grid" where
  "writeCell g c x =
     (if row c < 0 \<or> int (length g) \<le> row c then Inl TypeError
      else let r = g ! nat (row c)
           in if col c < 0 \<or> int (length r) \<le> col c then Inl RowGrowth
              else Inr (g[nat (row c) := r[nat (col c) := x]]))"

definition getTraversalOrder :: "Direction \<Rightarrow> nat \<Rightarrow> Cell list" where
  "getTraversalOrder direction n =
     (case direction of
        Up \<Rightarrow>
          concat (map (\<lambda>c. map (\<lambda>r. \<lparr>row = int r, col = int c\<rparr>) [0..<n]) [0..<n])
      | Down \<Rightarrow>
          concat (map (\<lambda>c. map (\<lambda>r. \<lparr>row = int r, col = int c\<rparr>) (rev [0..<n])) [0..<n])
      | Left \<Rightarrow>
          concat (map (\<lambda>r. map (\<lambda>c. \<lparr>row = int r, col = int c\<rparr>) [0..<n]) [0..<n])
      | Right \<Rightarrow>
          concat (map (\<lambda>r. map (\<lambda>c. \<lparr>row = int r, col = int c\<rparr>) (rev [0..<n])) [0..<n]))"

definition getNextCell :: "Cell \<Rightarrow> Direction \<Rightarrow> Cell option" where
  "getNextCell cell direction =
     (case direction of
        Up \<Rightarrow> if row cell > 0 then Some \<lparr>row = row cell - 1, col = col cell\<rparr> else None
      | Down \<Rightarrow> Some \<lparr>row = row cell + 1, col = col cell\<rparr>
      | Left \<Rightarrow> if col cell > 0 then Some \<lparr>row = row cell, col = col cell - 1\<rparr> else None
      | Right \<Rightarrow> Some \<lparr>row = row cell, col = col cell + 1\<rparr>)"

definition isWithinBounds :: "Cell \<Rightarrow> nat \<Rightarrow> bool" where
  "isWithinBounds cell n =
     (row cell \<ge> 0 \<and> row cell < int n \<and> col cell \<ge> 0 \<and> col cell < int n)"

text \<open>The set \<open>mergedCells\<close> of keys \<open>"row,col"\<close> is a set of cells: the key determines the
  cell.\<close>

definition stepsLeft :: "Direction \<Rightarrow> nat \<Rightarrow> Cell option \<Rightarrow> nat" where
  "stepsLeft direction n current =
     (case current of
        None \<Rightarrow> 0
      | Some c \<Rightarrow>
          if isWithinBounds c n
          then Suc (case direction of
                      Up \<Rightarrow> nat (row c)
                    | Down \<Rightarrow> n - nat (row c)
                    | Left \<Rightarrow> nat (col c)
                    | Right \<Rightarrow> n - nat (col c))
          else 0)"

function farthestLoop ::
  "Direction \<Rightarrow> Grid \<Rightarrow> Cell set \<Rightarrow> Cell \<Rightarrow> Cell option \<Rightarrow> Cell \<times> Cell option" where
  "farthestLoop direction g merged previous None = (previous, None)"
| "farthestLoop direction g merged previous (Some current) =
     (if isWithinBounds current (length g)
      then (if readCell g current \<noteq> Null \<or> current \<in> merged
            then (previous, Some current)
            else farthestLoop direction g merged current (getNextCell current direction))
      else (previous, Some current))"
  by pat_completeness auto
termination
  by (relation "measure (\<lambda>(d, g, m, p, c). stepsLeft d (length g) c)")
    (auto simp: stepsLeft_def getNextCell_def isWithinBounds_def split: Direction.splits)

definition findFarthestPosition ::
  "Cell \<Rightarrow> Direction \<Rightarrow> Grid \<Rightarrow> Cell set \<Rightarrow> Cell \<times> Cell option" where
  "findFarthestPosition pos direction g merged =
     (let (previous, current) = farthestLoop direction g merged pos (getNextCell pos direction)
      in (previous,
          (case current of
             None \<Rightarrow> None
           | Some c \<Rightarrow> if isWithinBounds c (length g) then Some c else None)))"

text \<open>The locals of \<open>performMove\<close>, with the module counter of tile ids.\<close>

record MoveAcc =
  newGrid :: Grid
  mergedCells :: "Cell set"
  mergedAcc :: "Tile list"
  movedAcc :: bool
  scoreAcc :: real
  tileIdCounter :: nat

text \<open>The test for a merge: the tile at \<open>next\<close>, if it has the same value and has not
  merged in this move.\<close>

definition mergePartner ::
  "Grid \<Rightarrow> Cell set \<Rightarrow> Tile \<Rightarrow> Cell option \<Rightarrow> error + (Cell \<times> Tile) option" where
  "mergePartner g merged tile nxt =
     (case nxt of
        None \<Rightarrow> Inr None
      | Some nx \<Rightarrow>
          (case readCell g nx of
             NoRow \<Rightarrow> Inl TypeError
           | Undefined \<Rightarrow> Inr None
           | Null \<Rightarrow> Inr None
           | Filled nextTile \<Rightarrow>
               if tile_value nextTile = tile_value tile \<and> nx \<notin> merged
               then Inr (Some (nx, nextTile)) else Inr None))"

definition snapshotTile :: "Tile \<Rightarrow> Tile" where
  "snapshotTile t =
     Tile (tile_id t) (tile_value t) \<lparr>row = row (position t), col = col (position t)\<rparr>
       (mergedFrom t)"

definition placeTile :: "MoveAcc \<Rightarrow> Tile \<Rightarrow> Tile \<Rightarrow> Cell \<Rightarrow> error + MoveAcc" where
  "placeTile a tile finalTile newPosition =
     (case writeCell (newGrid a) newPosition (Some finalTile) of
        Inl e \<Rightarrow> Inl e
      | Inr g' \<Rightarrow>
          Inr (a\<lparr>newGrid := g',
                 movedAcc := (if row newPosition \<noteq> row (position tile)
                                 \<or> col newPosition \<noteq> col (position tile)
                              then True else movedAcc a)\<rparr>))"

text \<open>One pass of the loop body for \<open>cell\<close>. A tile read as \<open>undefined\<close> (a row shorter
  than the grid is high) ends in a property read on \<open>undefined\<close>.\<close>

definition moveStep ::
  "(nat \<Rightarrow> nat) \<Rightarrow> Grid \<Rightarrow> Direction \<Rightarrow> Cell \<Rightarrow> MoveAcc \<Rightarrow> error + MoveAcc" where
  "moveStep now g direction cell a =
     (case readCell g cell of
        NoRow \<Rightarrow> Inl TypeError
      | Undefined \<Rightarrow> Inl TypeError
      | Null \<Rightarrow> Inr a
      | Filled tile \<Rightarrow>
          (let (farthest, nxt) =
                 findFarthestPosition cell direction (newGrid a) (mergedCells a)
           in case mergePartner (newGrid a) (mergedCells a) tile nxt of
                Inl e \<Rightarrow> Inl e
              | Inr None \<Rightarrow>
                  placeTile a tile
                    (Tile (tile_id tile) (tile_value tile) farthest (mergedFrom tile)) farthest
              | Inr (Some (nx, nextTile)) \<Rightarrow>
                  (let mergedValue = tile_value tile * 2;
                       (created, k') = createTile now (tileIdCounter a) nx mergedValue;
                       mergedTile =
                         Tile (tile_id created) (tile_value created) (position created)
                           (Some [snapshotTile tile, snapshotTile nextTile])
                   in placeTile
                        (a\<lparr>mergedCells := insert nx (mergedCells a),
                           scoreAcc := scoreAcc a + mergedValue,
                           mergedAcc := mergedAcc a @ [mergedTile],
                           tileIdCounter := k'\<rparr>)
                        tile mergedTile nx)))"

fun moveLoop ::
  "(nat \<Rightarrow> nat) \<Rightarrow> Grid \<Rightarrow> Direction \<Rightarrow> Cell list \<Rightarrow> MoveAcc \<Rightarrow> error + MoveAcc" where
  "moveLoop now g direction [] a = Inr a"
| "moveLoop now g direction (cell # cells) a =
     (case moveStep now g direction cell a of
        Inl e \<Rightarrow> Inl e
      | Inr a' \<Rightarrow> moveLoop now g direction cells a')"

text \<open>The object returned by \<open>performMove\<close>: fields \<open>grid\<close>, \<open>moved\<close>, \<open>score\<close>,
  \<open>mergedTiles\<close>.\<close>

record PerformMoveResult =
  pm_grid :: Grid
  pm_moved :: bool
  pm_score :: real
  pm_mergedTiles :: "Tile list"

definition performMove ::
  "(nat \<Rightarrow> nat) \<Rightarrow> nat \<Rightarrow> Grid \<Rightarrow> Direction \<Rightarrow> error + (PerformMoveResult \<times> nat)" where
  "performMove now k g direction =
     (let n = length g
      in case moveLoop now g direction (getTraversalOrder direction n)
                \<lparr>newGrid = createEmptyGrid n, mergedCells = {}, mergedAcc = [],
                 movedAcc = False, scoreAcc = 0, tileIdCounter = k\<rparr> of
           Inl e \<Rightarrow> Inl e
         | Inr a \<Rightarrow>
             Inr (\<lparr>pm_grid = newGrid a, pm_moved = movedAcc a, pm_score = scoreAcc a,
                   pm_mergedTiles = mergedAcc a\<rparr>, tileIdCounter a))"

section \<open>Spawning a tile\<close>

text \<open>\<open>spawnRandomTile\<close>: \<open>r1\<close> is the draw that picks the cell, \<open>r2\<close> the draw used
  by \<open>selectSpawnValue\<close>. The result \<open>None\<close> is the \<open>null\<close> returned for a full grid. An
  index outside \<open>emptyCells\<close> reads \<open>undefined\<close>, whose \<open>row\<close> is then read. The value
  of the tile is selected with exact sums. What is shown of \<open>spawnRandomTile\<close> and of its
  callers for arbitrary arguments holds whichever entry of the table is selected; the
  evaluations draw \<open>0\<close> or \<open>1/2\<close> on the default table, which select its first entry
  with the addition of doubles as well.\<close>

definition spawnRandomTile ::
  "(nat \<Rightarrow> nat) \<Rightarrow> nat \<Rightarrow> Grid \<Rightarrow> SpawnConfig list \<Rightarrow> real \<Rightarrow> real
     \<Rightarrow> error + (Grid option \<times> nat)" where
  "spawnRandomTile now k g svs r1 r2 =
     (let emptyCells = getEmptyCells g
      in if length emptyCells = 0 then Inr (None, k)
         else
           (let g' = cloneGrid g;
                idx = \<lfloor>r1 * real (length emptyCells)\<rfloor>
            in if idx < 0 \<or> int (length emptyCells) \<le> idx then Inl TypeError
               else
                 (let randomCell = emptyCells ! nat idx
                  in case selectSpawnValue (+) svs r2 of
                       Inl e \<Rightarrow> Inl e
                     | Inr v \<Rightarrow>
                         (let (newTile, k') = createTile now k randomCell v
                          in case writeCell g' randomCell (Some newTile) of
                               Inl e \<Rightarrow> Inl e
                             | Inr g'' \<Rightarrow> Inr (Some g'', k')))))"

section \<open>Status evaluator\<close>

definition adjacentCells :: "Cell \<Rightarrow> Cell list" where
  "adjacentCells c =
     [\<lparr>row = row c - 1, col = col c\<rparr>, \<lparr>row = row c + 1, col = col c\<rparr>,
      \<lparr>row = row c, col = col c - 1\<rparr>, \<lparr>row = row c, col = col c + 1\<rparr>]"

text \<open>The inner loop over the neighbours of a non-null \<open>tile\<close>. The comparison reads
  \<open>tile.value\<close>, which throws when \<open>tile\<close> is \<open>undefined\<close>.\<close>

fun checkAdjacent :: "Grid \<Rightarrow> Slot \<Rightarrow> Cell list \<Rightarrow> error + bool" where
  "checkAdjacent g tile [] = Inr False"
| "checkAdjacent g tile (adjCell # adjs) =
     (if isWithinBounds adjCell (length g)
      then (case readCell g adjCell of
              NoRow \<Rightarrow> Inl TypeError
            | Filled adjTile \<Rightarrow>
                (case tile of
                   Filled t \<Rightarrow>
                     if tile_value adjTile = tile_value t then Inr True
                     else checkAdjacent g tile adjs
                 | _ \<Rightarrow> Inl TypeError)
            | _ \<Rightarrow> checkAdjacent g tile adjs)
      else checkAdjacent g tile adjs)"

fun checkCells :: "Grid \<Rightarrow> Cell list \<Rightarrow> error + bool" where
  "checkCells g [] = Inr False"
| "checkCells g (c # cs) =
     (case readCell g c of
        NoRow \<Rightarrow> Inl TypeError
      | Null \<Rightarrow> checkCells g cs
      | tile \<Rightarrow>
          (case checkAdjacent g tile (adjacentCells c) of
             Inl e \<Rightarrow> Inl e
           | Inr found \<Rightarrow> if found then Inr True else checkCells g cs))"

definition hasMovesAvailable :: "Grid \<Rightarrow> error + bool" where
  "hasMovesAvailable g =
     (let n = length g
      in if length (getEmptyCells g) > 0 then Inr True
         else checkCells g
                (concat (map (\<lambda>r. map (\<lambda>c. \<lparr>row = int r, col = int c\<rparr>) [0..<n]) [0..<n])))"

definition hasWon :: "Grid \<Rightarrow> real \<Rightarrow> bool" where
  "hasWon g target = list_ex (\<lambda>tile. tile_value tile \<ge> target) (getAllTiles g)"

definition determineGameStatus :: "Grid \<Rightarrow> real \<Rightarrow> GameStatus \<Rightarrow> error + GameStatus" where
  "determineGameStatus g target currentStatus =
     (if currentStatus = Won then Inr Won
      else if hasWon g target then Inr Won
      else (case hasMovesAvailable g of
              Inl e \<Rightarrow> Inl e
            | Inr avail \<Rightarrow> if \<not> avail then Inr Lost else Inr Playing))"

section \<open>Game state controller (game/gameState)\<close>

text \<open>\<open>cloneGameState(state, false)\<close> is \<open>cloneShallow\<close>; with \<open>true\<close> the previous
  states are cloned by the call with \<open>false\<close>.\<close>

definition cloneShallow :: "GameState \<Rightarrow> GameState" where
  "cloneShallow s =
     GameState (cloneGrid (grid s)) (score s) (status s) [] (config s) (moveCount s)
       (wonAndContinued s)"

definition cloneGameState :: "GameState \<Rightarrow> bool \<Rightarrow> GameState" where
  "cloneGameState s includePreviousStates =
     GameState (cloneGrid (grid s)) (score s) (status s)
       (if includePreviousStates then map cloneShallow (previousStates s) else [])
       (config s) (moveCount s) (wonAndContinued s)"

fun joinWith :: "string \<Rightarrow> string list \<Rightarrow> string" where
  "joinWith sep [] = []"
| "joinWith sep [x] = x"
| "joinWith sep (x # y # ys) = x @ sep @ joinWith sep (y # ys)"

text \<open>\<open>Array(size)\<close> for a number \<open>size\<close>: a length that is not an integer in
  \<open>[0, 2^32)\<close> is a \<open>RangeError\<close>.\<close>

definition createEmptyGridOf :: "real \<Rightarrow> error + Grid" where
  "createEmptyGridOf len =
     (if isInteger len \<and> 0 \<le> len \<and> len < 4294967296
      then Inr (createEmptyGrid (nat \<lfloor>len\<rfloor>)) else Inl RangeError)"

text \<open>\<open>initializeGame\<close> with the four draws of its two spawns. The state it builds has no
  \<open>wonAndContinued\<close> field.\<close>

definition initializeGame ::
  "(nat \<Rightarrow> nat) \<Rightarrow> nat \<Rightarrow> GameConfig \<Rightarrow> real \<Rightarrow> real \<Rightarrow> real \<Rightarrow> real
     \<Rightarrow> error + (GameState \<times> nat)" where
  "initializeGame now k cfg r1 r2 r3 r4 =
     (let errors = validateGameConfig cfg
      in if length errors > 0
         then Inl (Error (''Invalid game configuration: '' @ joinWith '', '' errors))
         else
           (case createEmptyGridOf (gridSize cfg) of
              Inl e \<Rightarrow> Inl e
            | Inr g0 \<Rightarrow>
                (case spawnRandomTile now k g0 (spawnValues cfg) r1 r2 of
                   Inl e \<Rightarrow> Inl e
                 | Inr (None, k1) \<Rightarrow> Inl (Error ''Failed to spawn first tile'')
                 | Inr (Some g1, k1) \<Rightarrow>
                     (case spawnRandomTile now k1 g1 (spawnValues cfg) r3 r4 of
                        Inl e \<Rightarrow> Inl e
                      | Inr (None, k2) \<Rightarrow> Inl (Error ''Failed to spawn second tile'')
                      | Inr (Some g2, k2) \<Rightarrow>
                          Inr (GameState g2 0 Playing [] cfg 0 None, k2)))))"

text \<open>\<open>state.config.maxUndoStates || 10\<close>: an absent bound and the bound \<open>0\<close> both give
  \<open>10\<close>.\<close>

definition undoLimit :: "GameConfig \<Rightarrow> real" where
  "undoLimit cfg = (case maxUndoStates cfg of None \<Rightarrow> 10 | Some m \<Rightarrow> if m = 0 then 10 else m)"

text \<open>\<open>xs.slice(0, end)\<close>: the end is truncated to an integer; a negative end counts from
  the end of the array.\<close>

definition sliceTo :: "'a list \<Rightarrow> real \<Rightarrow> 'a list" where
  "sliceTo xs bound =
     (let e = toIntegerPart bound
      in if e < 0 then take (nat (int (length xs) + e)) xs else take (nat e) xs)"

definition unchanged :: "GameState \<Rightarrow> MoveResult" where
  "unchanged s = \<lparr>newState = s, moved = False, scoreGained = 0, mergedTiles = []\<rparr>"

text \<open>\<open>move\<close> with the two draws of its spawn. The call of \<open>determineGameStatus\<close> passes
  \<open>state.wonAndContinued\<close> as a fourth argument; the function has three parameters, so the
  argument is dropped.\<close>

definition move ::
  "(nat \<Rightarrow> nat) \<Rightarrow> nat \<Rightarrow> GameState \<Rightarrow> Direction \<Rightarrow> real \<Rightarrow> real
     \<Rightarrow> error + (MoveResult \<times> nat)" where
  "move now k s direction r1 r2 =
     (if status s = Lost then Inr (unchanged s, k)
      else
        (case performMove now k (grid s) direction of
           Inl e \<Rightarrow> Inl e
         | Inr (pm, k1) \<Rightarrow>
             if \<not> pm_moved pm then Inr (unchanged s, k1)
             else
               (case spawnRandomTile now k1 (pm_grid pm) (spawnValues (config s)) r1 r2 of
                  Inl e \<Rightarrow> Inl e
                | Inr (None, k2) \<Rightarrow> Inr (unchanged s, k2)
                | Inr (Some gridWithNewTile, k2) \<Rightarrow>
                    (let newScore = score s + pm_score pm
                     in case determineGameStatus gridWithNewTile (targetValue (config s))
                               (status s) of
                          Inl e \<Rightarrow> Inl e
                        | Inr newStatus \<Rightarrow>
                            (let stateCopy = cloneGameState s False;
                                 history = sliceTo (stateCopy # previousStates s)
                                             (undoLimit (config s))
                             in Inr (\<lparr>newState =
                                        GameState gridWithNewTile newScore newStatus history
                                          (config s) (moveCount s + 1) (wonAndContinued s),
                                      moved = True, scoreGained = pm_score pm,
                                      mergedTiles = pm_mergedTiles pm\<rparr>, k2))))))"

definition undo :: "GameState \<Rightarrow> GameState" where
  "undo s =
     (if length (previousStates s) = 0 then s
      else
        (let previousState = previousStates s ! 0
         in GameState (grid previousState) (score previousState) (status previousState)
              (drop 1 (previousStates s)) (config previousState) (moveCount previousState)
              (wonAndContinued previousState)))"

definition continueAfterWin :: "GameState \<Rightarrow> GameState" where
  "continueAfterWin s =
     (if status s \<noteq> Won then s
      else GameState (grid s) (score s) Playing (previousStates s) (config s) (moveCount s)
             (Some True))"

text \<open>A caller that plays a list of inputs, each a direction with the two draws of the
  spawn, feeding every new state into the next call.\<close>

fun playMoves ::
  "(nat \<Rightarrow> nat) \<Rightarrow> nat \<Rightarrow> GameState \<Rightarrow> (Direction \<times> real \<times> real) list
     \<Rightarrow> error + MoveResult list" where
  "playMoves now k s [] = Inr []"
| "playMoves now k s ((d, r1, r2) # inputs) =
     (case move now k s d r1 r2 of
        Inl e \<Rightarrow> Inl e
      | Inr (res, k') \<Rightarrow>
          (case playMoves now k' (newState res) inputs of
             Inl e \<Rightarrow> Inl e
           | Inr rs \<Rightarrow> Inr (res # rs)))"

section \<open>Predicates and measures of the claims\<close>

text \<open>A grid of the data model is square: \<open>n\<close> rows of \<open>n\<close> cells.\<close>

definition squareOf :: "nat \<Rightarrow> Grid \<Rightarrow> bool" where
  "squareOf n g = (length g = n \<and> (\<forall>r\<in>set g. length r = n))"

definition squareGrid :: "Grid \<Rightarrow> bool" where
  "squareGrid g = squareOf (length g) g"

text \<open>Every tile's stored position is its place in the matrix.\<close>

definition positionsMatch :: "Grid \<Rightarrow> bool" where
  "positionsMatch g =
     (\<forall>r<length g. \<forall>c<length (g ! r). \<forall>t. g ! r ! c = Some t \<longrightarrow>
        position t = \<lparr>row = int r, col = int c\<rparr>)"

definition gridInvariant :: "Grid \<Rightarrow> bool" where
  "gridInvariant g = (squareGrid g \<and> positionsMatch g)"

definition tileValues :: "Grid \<Rightarrow> real multiset" where
  "tileValues g = mset (map tile_value (getAllTiles g))"

definition sumValues :: "Grid \<Rightarrow> real" where
  "sumValues g = sum_list (map tile_value (getAllTiles g))"

text \<open>\<open>ahead d a b\<close>: cell \<open>a\<close> lies on the line of \<open>b\<close>, further in direction \<open>d\<close>.\<close>

definition ahead :: "Direction \<Rightarrow> Cell \<Rightarrow> Cell \<Rightarrow> bool" where
  "ahead d a b =
     (case d of
        Up \<Rightarrow> col a = col b \<and> row a < row b
      | Down \<Rightarrow> col a = col b \<and> row a > row b
      | Left \<Rightarrow> row a = row b \<and> col a < col b
      | Right \<Rightarrow> row a = row b \<and> col a > col b)"

definition laterOK :: "Direction \<Rightarrow> Cell \<Rightarrow> Cell \<Rightarrow> bool" where
  "laterOK d a b = (a \<noteq> b \<and> \<not> ahead d b a)"

definition slotOf :: "Tile option \<Rightarrow> Slot" where
  "slotOf x = (case x of None \<Rightarrow> Null | Some t \<Rightarrow> Filled t)"

definition optTiles :: "Tile option \<Rightarrow> Tile multiset" where
  "optTiles x = (case x of None \<Rightarrow> {#} | Some t \<Rightarrow> {#t#})"

definition slotTiles :: "Slot \<Rightarrow> Tile multiset" where
  "slotTiles s = (case s of Filled t \<Rightarrow> {#t#} | _ \<Rightarrow> {#})"

definition tilesAt :: "Grid \<Rightarrow> Cell list \<Rightarrow> Tile multiset" where
  "tilesAt g cs = (\<Sum>c\<leftarrow>cs. slotTiles (readCell g c))"

definition valuesAt :: "Grid \<Rightarrow> Cell list \<Rightarrow> real multiset" where
  "valuesAt g cs = image_mset tile_value (tilesAt g cs)"

definition putTile :: "Grid \<Rightarrow> Cell \<Rightarrow> Tile \<Rightarrow> Grid" where
  "putTile g p t = g[nat (row p) := (g ! nat (row p))[nat (col p) := Some t]]"

text \<open>The invariant of the loop of \<open>performMove\<close>, with \<open>rest\<close> the cells still to be
  visited and \<open>allValues\<close> the values of the tiles of the input grid.\<close>

definition loopInv :: "nat \<Rightarrow> Grid \<Rightarrow> real multiset \<Rightarrow> Cell list \<Rightarrow> MoveAcc \<Rightarrow> bool" where
  "loopInv n g allValues rest a \<longleftrightarrow>
     squareOf n (newGrid a) \<and> positionsMatch (newGrid a) \<and>
     (\<forall>c\<in>set rest. readCell (newGrid a) c = Null) \<and>
     scoreAcc a = sum_list (map tile_value (mergedAcc a)) \<and>
     sum_mset (tileValues (newGrid a)) + sum_mset (valuesAt g rest) = sum_mset allValues \<and>
     (mergedAcc a = [] \<longrightarrow> tileValues (newGrid a) + valuesAt g rest = allValues) \<and>
     (\<forall>w\<in>#allValues. 0 \<le> w \<longrightarrow>
        (\<exists>u\<in>#tileValues (newGrid a) + valuesAt g rest. w \<le> u))"

text \<open>The spec's wording of a rejected move: no tile can slide (the next cell in the
  direction is inside the grid and empty) or merge (it holds a tile of the same value).\<close>

definition canMove :: "Grid \<Rightarrow> Direction \<Rightarrow> Cell \<Rightarrow> bool" where
  "canMove g d c =
     (case readCell g c of
        Filled t \<Rightarrow>
          (case getNextCell c d of
             None \<Rightarrow> False
           | Some nx \<Rightarrow>
               isWithinBounds nx (length g) \<and>
               (case readCell g nx of
                  Null \<Rightarrow> True
                | Filled u \<Rightarrow> tile_value u = tile_value t
                | _ \<Rightarrow> False))
      | _ \<Rightarrow> False)"

definition noSlideOrMerge :: "Grid \<Rightarrow> Direction \<Rightarrow> bool" where
  "noSlideOrMerge g d = list_all (\<lambda>c. \<not> canMove g d c) (getTraversalOrder d (length g))"

text \<open>The invariant of the loop of \<open>performMove\<close> on a grid where no tile can move:
  the cells visited so far hold what the input grid holds.\<close>

definition stayInv :: "nat \<Rightarrow> Grid \<Rightarrow> nat \<Rightarrow> Cell list \<Rightarrow> MoveAcc \<Rightarrow> bool" where
  "stayInv n g k0 rest a \<longleftrightarrow>
     squareOf n (newGrid a) \<and>
     (\<forall>c. isWithinBounds c n \<longrightarrow> c \<notin> set rest \<longrightarrow> readCell (newGrid a) c = readCell g c) \<and>
     (\<forall>c\<in>set rest. readCell (newGrid a) c = Null) \<and>
     \<not> movedAcc a \<and> mergedAcc a = [] \<and> scoreAcc a = 0 \<and> tileIdCounter a = k0"

text \<open>At most one tile claims any cell: the stored positions of the tiles of a grid are
  pairwise different.\<close>

definition onePerCell :: "Grid \<Rightarrow> bool" where
  "onePerCell g = distinct (map position (getAllTiles g))"

section \<open>Concrete grids\<close>

definition fixedClock :: "nat \<Rightarrow> nat" where
  "fixedClock k = 0"

definition tileAt :: "string \<Rightarrow> real \<Rightarrow> int \<Rightarrow> int \<Rightarrow> Tile" where
  "tileAt i v r c = Tile i v \<lparr>row = r, col = c\<rparr> None"

definition pairGrid :: Grid where
  "pairGrid =
     [[Some (tileAt ''a'' 2 0 0), Some (tileAt ''b'' 2 0 1), None],
      [None, None, None],
      [None, None, None]]"

definition mergedPair :: Tile where
  "mergedPair =
     Tile (fst (generateTileId fixedClock 0)) 4 \<lparr>row = 0, col = 0\<rparr>
       (Some [tileAt ''b'' 2 0 1, tileAt ''a'' 2 0 0])"

definition pairMoved :: PerformMoveResult where
  "pairMoved =
     \<lparr>pm_grid = [[Some mergedPair, None, None], [None, None, None], [None, None, None]],
      pm_moved = True, pm_score = 4, pm_mergedTiles = [mergedPair]\<rparr>"

definition slideGrid :: Grid where
  "slideGrid =
     [[None, Some (tileAt ''a'' 2 0 1), Some (tileAt ''b'' 4 0 2)],
      [None, None, None],
      [None, None, None]]"


definition valuesOfGrid :: "Grid \<Rightarrow> real option list list" where
  "valuesOfGrid g = map (map (map_option tile_value)) g"

definition emptyRow4 :: "Tile option list" where
  "emptyRow4 = [None, None, None, None]"

section \<open>Concrete games\<close>

definition smallConfig :: "real option \<Rightarrow> GameConfig" where
  "smallConfig m =
     \<lparr>gridSize = 3, targetValue = 2048, spawnValues = defaultSpawnValues, maxUndoStates = m\<rparr>"

definition startGrid :: Grid where
  "startGrid =
     [[None, None, None],
      [None, Some (tileAt ''tile-0-0'' 2 1 1), Some (tileAt ''tile-0-1'' 2 1 2)],
      [None, None, None]]"

definition startState :: "real option \<Rightarrow> GameState" where
  "startState m = GameState startGrid 0 Playing [] (smallConfig m) 0 None"

definition firstMerged :: Tile where
  "firstMerged =
     Tile ''tile-0-2'' 4 \<lparr>row = 1, col = 0\<rparr>
       (Some [tileAt ''tile-0-1'' 2 1 2, tileAt ''tile-0-0'' 2 1 0])"

definition firstMove :: "real option \<Rightarrow> MoveResult" where
  "firstMove m =
     \<lparr>newState =
        GameState
          [[Some (tileAt ''tile-0-3'' 2 0 0), None, None],
           [Some firstMerged, None, None],
           [None, None, None]]
          4 Playing [startState m] (smallConfig m) 1 None,
      moved = True, scoreGained = 4, mergedTiles = [firstMerged]\<rparr>"

definition winConfig :: GameConfig where
  "winConfig =
     \<lparr>gridSize = 3, targetValue = 8, spawnValues = defaultSpawnValues, maxUndoStates = Some 10\<rparr>"

definition wonState :: GameState where
  "wonState =
     GameState [[None, Some (tileAt ''w'' 8 0 1), None], [None, None, None], [None, None, None]]
       16 Won [] winConfig 5 None"

definition continuedState :: GameState where
  "continuedState =
     GameState [[None, Some (tileAt ''w'' 8 0 1), None], [None, None, None], [None, None, None]]
       16 Playing [] winConfig 5 (Some True)"

definition wonAgain :: MoveResult where
  "wonAgain =
     \<lparr>newState =
        GameState
          [[Some (tileAt ''w'' 8 0 0), Some (tileAt ''tile-0-0'' 2 0 1), None],
           [None, None, None], [None, None, None]]
          16 Won [GameState (grid continuedState) 16 Playing [] winConfig 5 (Some True)]
          winConfig 6 (Some True),
      moved = True, scoreGained = 0, mergedTiles = []\<rparr>"

definition blockedGrid :: Grid where
  "blockedGrid =
     [[Some (tileAt ''a'' 2 0 0), Some (tileAt ''b'' 4 0 1), None],
      [None, None, None],
      [None, None, None]]"

definition blockedState :: GameState where
  "blockedState = GameState blockedGrid 0 Playing [] (smallConfig None) 0 None"

definition blockedResult :: PerformMoveResult where
  "blockedResult =
     \<lparr>pm_grid = blockedGrid, pm_moved = False, pm_score = 0, pm_mergedTiles = []\<rparr>"

definition spawnedGrid :: Grid where
  "spawnedGrid =
     [[Some (tileAt ''tile-0-0'' 2 0 0), Some (tileAt ''a'' 2 0 1), Some (tileAt ''b'' 4 0 2)],
      [None, None, None],
      [None, None, None]]"

section \<open>Spawn selector: the selection rule\<close>

lemma find_map_index:
  "find P (map f xs) = map_option f (find (\<lambda>x. P (f x)) xs)"
  by (induction xs) simp_all

lemma selectLoop_find:
  "selectLoop add r cum cs =
     map_option (\<lambda>i. spawn_value (cs ! i))
       (find (\<lambda>i. r \<le> foldl add cum (map probability (take (Suc i) cs))) [0..<length cs])"
proof (induction cs arbitrary: cum)
  case Nil
  show ?case by simp
next
  case (Cons c cs)
  have upt: "[0..<length (c # cs)] = 0 # map Suc [0..<length cs]"
    by (simp add: upt_conv_Cons map_Suc_upt del: upt_Suc)
  show ?case
  proof (cases "r \<le> add cum (probability c)")
    case True
    then show ?thesis unfolding upt by simp
  next
    case False
    then show ?thesis
      unfolding upt using Cons.IH [of "add cum (probability c)"]
      by (simp add: find_map_index comp_def option.map_comp)
  qed
qed

lemma selectLoop_member:
  "selectLoop add r cum cs = Some v \<Longrightarrow> \<exists>c\<in>set cs. v = spawn_value c"
  by (induction cs arbitrary: cum) (auto simp: Let_def split: if_splits)

text \<open>With exact sums the cumulative mass of an entry is the sum of the probabilities up
  to it.\<close>

lemma foldl_plus_sum_list:
  "foldl (+) a xs = a + sum_list (xs :: real list)"
  by (induction xs arbitrary: a) simp_all

lemma cumulativeMass_exact:
  "cumulativeMass (+) svs i = sum_list (map probability (take (Suc i) svs))"
  unfolding cumulativeMass_def by (simp only: foldl_plus_sum_list add_0)

subsection \<open>The addition of doubles\<close>

lemma pow2_pos: "0 < pow2 e"
  by (simp add: pow2_def)

lemma pow2_nonneg_exp: "0 \<le> e \<Longrightarrow> pow2 e = 2 ^ nat e"
  by (simp add: pow2_def)

lemma pow2_neg_exp: "e \<le> 0 \<Longrightarrow> pow2 e = 1 / 2 ^ nat (- e)"
  by (simp add: pow2_def)

lemma pow2_powr: "pow2 e = 2 powr real_of_int e"
  by (simp add: pow2_def powr_int)

lemma pow2_mono: "a \<le> b \<Longrightarrow> pow2 a \<le> pow2 b"
  by (simp add: pow2_powr powr_mono)

lemma bitLength_nonneg: "0 \<le> bitLength n"
proof (induction n rule: bitLength.induct)
  case (1 n)
  show ?case
  proof (cases "n \<le> 0")
    case True
    then show ?thesis by (subst bitLength.simps) simp
  next
    case False
    with "1.IH" show ?thesis by (subst bitLength.simps) simp
  qed
qed

lemma bitLength_bounds:
  "0 < n \<Longrightarrow> 2 ^ nat (bitLength n - 1) \<le> n \<and> n < 2 ^ nat (bitLength n)"
proof (induction n rule: bitLength.induct)
  case (1 n)
  from "1.prems" have n0: "\<not> n \<le> 0" by simp
  have bl: "bitLength n = bitLength (n div 2) + 1"
    using n0 by (subst bitLength.simps) simp
  show ?case
  proof (cases "n div 2 = 0")
    case True
    with "1.prems" have n1: "n = 1" by linarith
    have "bitLength (1 :: int) = 1"
      by (simp add: bitLength.simps)
    with n1 show ?thesis by simp
  next
    case False
    with "1.prems" have pos: "0 < n div 2" by linarith
    from "1.IH" [OF n0 pos]
    have lo: "2 ^ nat (bitLength (n div 2) - 1) \<le> n div 2"
      and hi: "n div 2 < 2 ^ nat (bitLength (n div 2))"
      by simp_all
    have blpos: "0 < bitLength (n div 2)"
      using pos bitLength_nonneg [of "n div 2 div 2"] by (subst bitLength.simps) simp
    then have nat1: "nat (bitLength (n div 2)) = Suc (nat (bitLength (n div 2) - 1))"
      by simp
    from lo have "2 * 2 ^ nat (bitLength (n div 2) - 1) \<le> n" by linarith
    moreover from hi have "n < 2 * 2 ^ nat (bitLength (n div 2))" by linarith
    ultimately show ?thesis
      unfolding bl using blpos by (simp add: nat_add_distrib nat1)
  qed
qed

text \<open>\<open>binade x\<close> is the binary exponent of a value \<open>x\<close> of the normal range: \<open>x\<close> lies
  between \<open>2^(binade x)\<close> and the next power of two.\<close>

lemma binade_bounds:
  assumes "pow2 (- 1022) \<le> \<bar>x\<bar>"
  shows "pow2 (binade x) \<le> \<bar>x\<bar> \<and> \<bar>x\<bar> < pow2 (binade x + 1)"
proof (cases "1 \<le> \<bar>x\<bar>")
  case True
  define n where "n = \<lfloor>\<bar>x\<bar>\<rfloor>"
  have npos: "0 < n" using True unfolding n_def by linarith
  define b where "b = bitLength n"
  from bitLength_bounds [OF npos]
  have lo: "2 ^ nat (b - 1) \<le> n" and hi: "n < 2 ^ nat b"
    by (simp_all add: b_def)
  have bpos: "1 \<le> b"
  proof (rule ccontr)
    assume "\<not> 1 \<le> b"
    then have "nat b = 0" by simp
    with hi npos show False by simp
  qed
  have bin: "binade x = b - 1"
    using True bpos by (simp add: binade_def n_def [symmetric] b_def [symmetric])
  have "real_of_int (2 ^ nat (b - 1)) \<le> real_of_int n"
    using lo by (simp only: of_int_le_iff)
  then have "(2 :: real) ^ nat (b - 1) \<le> real_of_int n" by simp
  moreover have "real_of_int n \<le> \<bar>x\<bar>" unfolding n_def by linarith
  ultimately have "(2 :: real) ^ nat (b - 1) \<le> \<bar>x\<bar>" by linarith
  then have l: "pow2 (b - 1) \<le> \<bar>x\<bar>"
    using bpos by (simp add: pow2_nonneg_exp)
  have "n + 1 \<le> 2 ^ nat b" using hi by simp
  then have "real_of_int (n + 1) \<le> real_of_int (2 ^ nat b)"
    by (simp only: of_int_le_iff)
  then have "real_of_int (n + 1) \<le> (2 :: real) ^ nat b" by simp
  moreover have "\<bar>x\<bar> < real_of_int (n + 1)" unfolding n_def by linarith
  ultimately have "\<bar>x\<bar> < (2 :: real) ^ nat b" by linarith
  then have h: "\<bar>x\<bar> < pow2 b"
    using bpos by (simp add: pow2_nonneg_exp)
  from l h show ?thesis by (simp add: bin)
next
  case False
  have apos: "0 < \<bar>x\<bar>"
    using assms pow2_pos [of "- 1022"] by linarith
  define y where "y = 1 / \<bar>x\<bar>"
  have y1: "1 < y" using False apos by (simp add: y_def)
  define m where "m = \<lceil>y\<rceil> - 1"
  have mpos: "0 < m" using y1 unfolding m_def by linarith
  have my: "real_of_int m < y" and ym: "y \<le> real_of_int (m + 1)"
    unfolding m_def by linarith+
  define k where "k = bitLength m"
  from bitLength_bounds [OF mpos]
  have lo: "2 ^ nat (k - 1) \<le> m" and hi: "m < 2 ^ nat k"
    by (simp_all add: k_def)
  have kpos: "1 \<le> k"
  proof (rule ccontr)
    assume "\<not> 1 \<le> k"
    then have "nat k = 0" by simp
    with hi mpos show False by simp
  qed
  have "m + 1 \<le> 2 ^ nat k" using hi by simp
  then have "real_of_int (m + 1) \<le> real_of_int (2 ^ nat k)"
    by (simp only: of_int_le_iff)
  then have "real_of_int (m + 1) \<le> (2 :: real) ^ nat k" by simp
  with ym have yk: "y \<le> 2 ^ nat k" by linarith
  have "real_of_int (2 ^ nat (k - 1)) \<le> real_of_int m"
    using lo by (simp only: of_int_le_iff)
  then have "(2 :: real) ^ nat (k - 1) \<le> real_of_int m" by simp
  with my have ky: "2 ^ nat (k - 1) < y" by linarith
  have xy: "\<bar>x\<bar> = 1 / y" using apos by (simp add: y_def)
  have l: "pow2 (- k) \<le> \<bar>x\<bar>"
  proof -
    have "1 / 2 ^ nat k \<le> 1 / y"
      using yk y1 by (intro divide_left_mono) simp_all
    then show ?thesis using kpos by (simp add: pow2_neg_exp xy)
  qed
  have h: "\<bar>x\<bar> < pow2 (- k + 1)"
  proof -
    have "1 / y < 1 / 2 ^ nat (k - 1)"
      using ky y1 by (intro divide_strict_left_mono mult_pos_pos) simp_all
    moreover have "pow2 (- k + 1) = 1 / 2 ^ nat (k - 1)"
      using kpos by (simp add: pow2_neg_exp)
    ultimately show ?thesis by (simp add: xy)
  qed
  have k1022: "k \<le> 1022"
  proof (rule ccontr)
    assume "\<not> k \<le> 1022"
    then have "- k + 1 \<le> - 1022" by simp
    then have "pow2 (- k + 1) \<le> pow2 (- 1022)"
      by (rule pow2_mono)
    with h assms show False by linarith
  qed
  have bin: "binade x = - k"
    using False k1022
    by (simp add: binade_def y_def [symmetric] m_def [symmetric] k_def [symmetric])
  from l h show ?thesis by (simp add: bin)
qed

text \<open>\<open>roundDouble x\<close> is a multiple of the unit in the last place of \<open>x\<close>, at most half
  a unit away from \<open>x\<close>.\<close>

lemma roundHalfEven_near: "\<bar>of_int (roundHalfEven x) - x\<bar> \<le> 1 / 2"
  unfolding roundHalfEven_def Let_def by (auto simp: abs_le_iff)

lemma roundDouble_near:
  "\<bar>roundDouble x - x\<bar> \<le> pow2 (binade x - 52) / 2"
proof (cases "x = 0")
  case True
  then show ?thesis using pow2_pos [of "binade x - 52"] by (simp add: roundDouble_def)
next
  case False
  define u where "u = pow2 (binade x - 52)"
  have u: "0 < u" unfolding u_def by (rule pow2_pos)
  have "roundDouble x - x = (of_int (roundHalfEven (x / u)) - x / u) * u"
    using False u by (simp add: roundDouble_def u_def [symmetric] Let_def field_simps)
  then have "\<bar>roundDouble x - x\<bar> = \<bar>of_int (roundHalfEven (x / u)) - x / u\<bar> * u"
    using u by (simp add: abs_mult)
  also have "\<dots> \<le> 1 / 2 * u"
    using roundHalfEven_near [of "x / u"] u by (intro mult_right_mono) simp_all
  finally show ?thesis by (simp add: u_def)
qed

lemmas double_defs = addDouble_def roundDouble_def binade_def pow2_def roundHalfEven_def
  bitLength.simps Let_def

text \<open>The sums of the walk over \<open>tenthsTable\<close>: \<open>0 + 0.1\<close> is \<open>0.1\<close>, and \<open>0.1 + 0.2\<close> is
  \<open>0.30000000000000004\<close>, the exact sum lying halfway between two doubles.\<close>

lemma addDouble_zero_tenth:
  "addDouble 0 (3602879701896397 / 36028797018963968) = 3602879701896397 / 36028797018963968"
  by (simp add: double_defs)

lemma addDouble_tenth_fifth:
  "addDouble (3602879701896397 / 36028797018963968) (3602879701896397 / 18014398509481984)
     = 1351079888211149 / 4503599627370496"
  by (simp add: double_defs)

lemma addDouble_defaults:
  "addDouble 0 (8106479329266893 / 9007199254740992) = 8106479329266893 / 9007199254740992"
  "addDouble (8106479329266893 / 9007199254740992) (3602879701896397 / 36028797018963968) = 1"
  by (simp_all add: double_defs)

subsection \<open>The rule\<close>

text \<open>
  Claim C10. For every non-empty spawn table and every draw \<open>r\<close>, \<open>selectSpawnValue\<close>
  returns the value of the first entry whose cumulative probability mass is at least \<open>r\<close>;
  when no entry reaches \<open>r\<close> it returns the value of the first entry. It never fails on a
  non-empty table, and what it returns is the value of some entry of the table. The
  cumulative mass of an entry is the total that the walk has accumulated when it tests the
  entry, and the statement holds for every addition of numbers \<open>add\<close>: for the rounding
  addition of doubles that the program performs, and for exact sums.
\<close>

theorem selectSpawnValue_first_reaching:
  assumes "svs \<noteq> []"
  shows "selectSpawnValue add svs r = Inr (spec_selectSpawnValue add svs r)
         \<and> (\<exists>c\<in>set svs. spec_selectSpawnValue add svs r = spawn_value c)"
proof -
  have loop: "selectLoop add r 0 svs
                = map_option (\<lambda>i. spawn_value (svs ! i)) (firstReaching add svs r)"
    by (simp add: selectLoop_find firstReaching_def cumulativeMass_def)
  obtain c cs where svs: "svs = c # cs"
    using assms by (cases svs) auto
  have eq: "selectSpawnValue add svs r = Inr (spec_selectSpawnValue add svs r)"
    unfolding selectSpawnValue_def spec_selectSpawnValue_def loop
    by (cases "firstReaching add svs r") (simp_all add: svs)
  have mem: "\<exists>c\<in>set svs. spec_selectSpawnValue add svs r = spawn_value c"
  proof (cases "firstReaching add svs r")
    case None
    then show ?thesis by (simp add: spec_selectSpawnValue_def svs)
  next
    case (Some i)
    then have "selectLoop add r 0 svs = Some (spawn_value (svs ! i))"
      by (simp add: loop)
    then have "\<exists>c\<in>set svs. spawn_value (svs ! i) = spawn_value c"
      by (rule selectLoop_member)
    then show ?thesis by (simp add: spec_selectSpawnValue_def Some)
  qed
  from eq mem show ?thesis by simp
qed

theorem selectSpawnValue_first_reaching_witness:
  "tenthsTable \<noteq> []
   \<and> selectSpawnValue addDouble tenthsTable tenthsDraw = Inr 4
   \<and> spec_selectSpawnValue addDouble tenthsTable tenthsDraw = 4"
proof -
  have ne: "tenthsTable \<noteq> []"
    by (simp add: tenthsTable_def)
  have run: "selectSpawnValue addDouble tenthsTable tenthsDraw = Inr 4"
    by (simp add: selectSpawnValue_def tenthsTable_def tenthsDraw_def
        addDouble_zero_tenth addDouble_tenth_fifth)
  from selectSpawnValue_first_reaching [OF ne, of addDouble tenthsDraw] run ne show ?thesis
    by simp
qed

text \<open>The rounding of the sum decides at this input: the exact sum of the first two
  probabilities is below the draw and their sum as doubles is the draw, so the walk with
  the addition of doubles stops at the second entry, and a walk with exact sums would stop
  at the third.\<close>

lemma tenths_cumulativeMass:
  "cumulativeMass (+) tenthsTable 1 < tenthsDraw"
  "cumulativeMass addDouble tenthsTable 1 = tenthsDraw"
  by (simp_all add: cumulativeMass_def tenthsTable_def tenthsDraw_def
      addDouble_zero_tenth addDouble_tenth_fifth)

lemma tenths_exact_sums:
  "selectSpawnValue (+) tenthsTable tenthsDraw = Inr 8"
  by (simp add: selectSpawnValue_def tenthsTable_def tenthsDraw_def)

text \<open>On the default table \<open>[{value: 2, probability: 0.9}, {value: 4, probability: 0.1}]\<close>
  (each literal as the double it denotes) the doubles add up to \<open>1\<close>: every draw up to
  \<open>0.9\<close> selects \<open>2\<close>, every later draw up to \<open>1\<close> selects \<open>4\<close>.\<close>

lemma selectSpawnValue_default_doubles:
  "selectSpawnValue addDouble
     [\<lparr>spawn_value = 2, probability = 8106479329266893 / 9007199254740992\<rparr>,
      \<lparr>spawn_value = 4, probability = 3602879701896397 / 36028797018963968\<rparr>] r
   = (if r \<le> 8106479329266893 / 9007199254740992 then Inr 2
      else if r \<le> 1 then Inr 4 else Inr 2)"
  by (simp add: selectSpawnValue_def addDouble_defaults)

section \<open>Config validator: completeness\<close>

lemma validateGameConfig_three_violations:
  "validateGameConfig threeViolationsConfig =
     [''Grid size must be between 3 and 6'',
      ''Target value should be a power of 2'',
      ''At least one spawn value must be configured'']"
  by (simp add: validateGameConfig_def threeViolationsConfig_def bitAnd_def toInt32_def
      toIntegerPart_def isInteger_def)

lemma wrappedTarget_not_power_of_two: "(4294967297::real) \<noteq> 2 ^ k"
proof
  assume "(4294967297::real) = 2 ^ k"
  then have "real (4294967297::nat) = real (2 ^ k)"
    by simp
  then have eq: "(4294967297::nat) = 2 ^ k"
    by (simp only: of_nat_eq_iff)
  show False
  proof (cases k)
    case 0
    with eq show False by simp
  next
    case (Suc j)
    with eq have "(4294967297::nat) = 2 * 2 ^ j" by simp
    then have "even (4294967297::nat)" by (simp only: dvd_triv_left)
    then show False by simp
  qed
qed

text \<open>Every violated constraint contributes its message, and the list is empty exactly
  when no check of the code fires.\<close>

lemma validateGameConfig_complete:
  "''Grid size must be between 3 and 6'' \<in> set (validateGameConfig cfg)
     \<longleftrightarrow> gridSize cfg < 3 \<or> gridSize cfg > 6"
  "''Target value must be a positive integer'' \<in> set (validateGameConfig cfg)
     \<longleftrightarrow> targetValue cfg \<le> 0 \<or> \<not> isInteger (targetValue cfg)"
  "''Target value should be a power of 2'' \<in> set (validateGameConfig cfg)
     \<longleftrightarrow> bitAnd (targetValue cfg) (targetValue cfg - 1) \<noteq> 0"
  "''At least one spawn value must be configured'' \<in> set (validateGameConfig cfg)
     \<longleftrightarrow> spawnValues cfg = []"
  "''Spawn value probabilities must sum to 1.0'' \<in> set (validateGameConfig cfg)
     \<longleftrightarrow> spawnValues cfg \<noteq> []
         \<and> \<bar>foldl (\<lambda>sum sv. sum + probability sv) 0 (spawnValues cfg) - 1\<bar> > 0.001"
  "''Spawn values must be positive integers'' \<in> set (validateGameConfig cfg)
     \<longleftrightarrow> (\<exists>sv\<in>set (spawnValues cfg). spawn_value sv \<le> 0 \<or> \<not> isInteger (spawn_value sv))"
  "''Spawn probabilities must be between 0 and 1'' \<in> set (validateGameConfig cfg)
     \<longleftrightarrow> (\<exists>sv\<in>set (spawnValues cfg). probability sv < 0 \<or> probability sv > 1)"
  by (auto simp: validateGameConfig_def spawnEntryErrors_def Let_def split: if_splits)

lemma validateGameConfig_empty_iff:
  "validateGameConfig cfg = [] \<longleftrightarrow>
     3 \<le> gridSize cfg \<and> gridSize cfg \<le> 6
     \<and> 0 < targetValue cfg \<and> isInteger (targetValue cfg)
     \<and> bitAnd (targetValue cfg) (targetValue cfg - 1) = 0
     \<and> spawnValues cfg \<noteq> []
     \<and> \<bar>foldl (\<lambda>sum sv. sum + probability sv) 0 (spawnValues cfg) - 1\<bar> \<le> 0.001
     \<and> (\<forall>sv\<in>set (spawnValues cfg).
           0 < spawn_value sv \<and> isInteger (spawn_value sv)
           \<and> 0 \<le> probability sv \<and> probability sv \<le> 1)"
  by (auto simp: validateGameConfig_def spawnEntryErrors_def Let_def split: if_splits)

text \<open>For an integer target below \<open>2^31\<close> the test with \<open>&\<close> is the test for a power
  of two.\<close>

lemma and_pred_zero_iff:
  fixes n :: int
  assumes "0 < n"
  shows "n AND (n - 1) = 0 \<longleftrightarrow> (\<exists>k::nat. n = 2 ^ k)"
  using assms
proof (induction "nat n" arbitrary: n rule: less_induct)
  case less
  show ?case
  proof (cases "even n")
    case True
    then obtain m where m: "n = 2 * m" by (auto elim: evenE)
    with less.prems have mpos: "0 < m" by simp
    have d: "(2 * m - 1) div 2 = m - 1" by linarith
    have step: "n AND (n - 1) = 2 * (m AND (m - 1))"
      by (subst and_int_rec) (simp add: m d)
    have IH: "m AND (m - 1) = 0 \<longleftrightarrow> (\<exists>k::nat. m = 2 ^ k)"
      by (rule less.hyps) (use mpos m in simp_all)
    have "(\<exists>k::nat. n = 2 ^ k) \<longleftrightarrow> (\<exists>k::nat. m = 2 ^ k)"
    proof
      assume "\<exists>k::nat. n = 2 ^ k"
      then obtain k :: nat where k: "n = 2 ^ k" by blast
      with m mpos have "k \<noteq> 0" by (cases k) auto
      then obtain j where "k = Suc j" by (cases k) auto
      with k m have "m = 2 ^ j" by simp
      then show "\<exists>k::nat. m = 2 ^ k" by blast
    next
      assume "\<exists>k::nat. m = 2 ^ k"
      then obtain k :: nat where "m = 2 ^ k" by blast
      then have "n = 2 ^ Suc k" using m by simp
      then show "\<exists>k::nat. n = 2 ^ k" by blast
    qed
    with step IH show ?thesis by simp
  next
    case False
    then obtain m where m: "n = 2 * m + 1" by (auto elim: oddE)
    with less.prems have mnn: "0 \<le> m" by simp
    have step: "n AND (n - 1) = 2 * m"
      by (subst and_int_rec) (simp add: m)
    have "(\<exists>k::nat. n = 2 ^ k) \<longleftrightarrow> m = 0"
    proof
      assume "\<exists>k::nat. n = 2 ^ k"
      then obtain k :: nat where k: "n = 2 ^ k" by blast
      have "k = 0"
      proof (rule ccontr)
        assume "k \<noteq> 0"
        then have "even ((2::int) ^ k)" by simp
        with k False show False by simp
      qed
      with k m show "m = 0" by simp
    next
      assume "m = 0"
      then have "n = 2 ^ 0" using m by simp
      then show "\<exists>k::nat. n = 2 ^ k" by blast
    qed
    with step show ?thesis by simp
  qed
qed

lemma toInt32_small:
  assumes "isInteger t" "0 \<le> t" "t < 2147483648"
  shows "toInt32 t = \<lfloor>t\<rfloor>"
proof -
  have "0 \<le> \<lfloor>t\<rfloor>" "\<lfloor>t\<rfloor> < 2147483648"
    using assms by (simp_all add: floor_less_iff)
  then show ?thesis using assms(2)
    by (simp add: toInt32_def toIntegerPart_def)
qed

lemma power_of_two_test_exact:
  assumes int: "isInteger t" and pos: "0 < t" and small: "t < 2147483648"
  shows "bitAnd t (t - 1) = 0 \<longleftrightarrow> (\<exists>k::nat. t = 2 ^ k)"
proof -
  let ?n = "\<lfloor>t\<rfloor>"
  have t: "t = of_int ?n" using int unfolding isInteger_def by (rule sym)
  have npos: "0 < ?n" using pos t by linarith
  have "of_int \<lfloor>t - 1\<rfloor> = of_int ?n - (1::real)" by simp
  with t have i1: "isInteger (t - 1)"
    unfolding isInteger_def by simp
  have a: "toInt32 t = ?n"
    by (rule toInt32_small) (use assms in simp_all)
  have "toInt32 (t - 1) = \<lfloor>t - 1\<rfloor>"
    by (rule toInt32_small [OF i1]) (use pos small t npos in linarith)+
  then have b: "toInt32 (t - 1) = ?n - 1" by simp
  have "(\<exists>k::nat. ?n = 2 ^ k) \<longleftrightarrow> (\<exists>k::nat. t = 2 ^ k)"
  proof
    assume "\<exists>k::nat. ?n = 2 ^ k"
    then obtain k :: nat where "?n = 2 ^ k" by blast
    then have "of_int ?n = (2::real) ^ k" by simp
    with t show "\<exists>k::nat. t = 2 ^ k" by auto
  next
    assume "\<exists>k::nat. t = 2 ^ k"
    then obtain k :: nat where "t = 2 ^ k" by blast
    then have "?n = 2 ^ k" by simp
    then show "\<exists>k::nat. ?n = 2 ^ k" by blast
  qed
  then show ?thesis
    using and_pred_zero_iff [OF npos] by (simp add: bitAnd_def a b)
qed

text \<open>
  Claim C8. \<open>validateGameConfig\<close> lists every violated constraint and answers the empty
  list exactly for the configurations that satisfy all of them. The code tests the power
  of two with \<open>&\<close> on 32-bit operands: the target \<open>2^32 + 1\<close> is a positive integer and
  no power of two, its ToInt32 image is \<open>1\<close>, and the configuration is accepted with an
  empty list.
\<close>

theorem validateGameConfig_accepts_wrapped_target:
  "validateGameConfig wrappedTargetConfig = []
   \<and> (\<forall>k::nat. targetValue wrappedTargetConfig \<noteq> 2 ^ k)"
proof -
  have "validateGameConfig wrappedTargetConfig = []"
    by (simp add: validateGameConfig_def wrappedTargetConfig_def defaultSpawnValues_def
        spawnEntryErrors_def bitAnd_def toInt32_def toIntegerPart_def isInteger_def)
  moreover have "\<forall>k::nat. targetValue wrappedTargetConfig \<noteq> 2 ^ k"
    by (simp add: wrappedTargetConfig_def wrappedTarget_not_power_of_two)
  ultimately show ?thesis by simp
qed

section \<open>Move engine: access to a square grid\<close>

lemma cell_eq_iff: "(a::Cell) = b \<longleftrightarrow> row a = row b \<and> col a = col b"
  by (cases a, cases b) simp

lemma readCell_within:
  assumes "squareOf n g" "isWithinBounds c n"
  shows "readCell g c = slotOf (g ! nat (row c) ! nat (col c))"
proof -
  have r: "nat (row c) < length g" using assms by (auto simp: squareOf_def isWithinBounds_def)
  then have "length (g ! nat (row c)) = n" using assms by (auto simp: squareOf_def)
  then show ?thesis using assms r
    by (auto simp: readCell_def isWithinBounds_def squareOf_def slotOf_def Let_def)
qed

lemma writeCell_within:
  assumes "squareOf n g" "isWithinBounds c n"
  shows "writeCell g c x = Inr (g[nat (row c) := (g ! nat (row c))[nat (col c) := x]])"
proof -
  have r: "nat (row c) < length g" using assms by (auto simp: squareOf_def isWithinBounds_def)
  then have "length (g ! nat (row c)) = n" using assms by (auto simp: squareOf_def)
  then show ?thesis using assms r
    by (auto simp: writeCell_def isWithinBounds_def squareOf_def Let_def)
qed

lemma squareOf_update:
  assumes "squareOf n g"
  shows "squareOf n (g[r := (g ! r)[c := x]])"
proof (cases "r < length g")
  case True
  then have "length ((g ! r)[c := x]) = n"
    using assms by (auto simp: squareOf_def)
  then show ?thesis using assms
    by (auto simp: squareOf_def dest!: set_update_subset_insert [THEN subsetD])
next
  case False
  then have "g[r := (g ! r)[c := x]] = g"
    by (simp add: list_update_beyond)
  then show ?thesis using assms by simp
qed

lemma nth_update2:
  assumes "r < length g" "c < length (g ! r)"
  shows "g[r := (g ! r)[c := x]] ! r' ! c' = (if r' = r \<and> c' = c then x else g ! r' ! c')"
  using assms by (cases "r' = r") (auto simp: nth_list_update)

lemma readCell_update:
  assumes "squareOf n g" "isWithinBounds p n" "isWithinBounds q n"
  shows "readCell (g[nat (row p) := (g ! nat (row p))[nat (col p) := x]]) q =
           (if q = p then slotOf x else readCell g q)"
proof -
  have r: "nat (row p) < length g" using assms by (auto simp: squareOf_def isWithinBounds_def)
  then have c: "nat (col p) < length (g ! nat (row p))"
    using assms by (auto simp: squareOf_def isWithinBounds_def)
  have eq: "q = p \<longleftrightarrow> nat (row q) = nat (row p) \<and> nat (col q) = nat (col p)"
    using assms by (auto simp: cell_eq_iff isWithinBounds_def)
  show ?thesis
    using readCell_within [OF squareOf_update [OF assms(1)] assms(3)]
      readCell_within [OF assms(1) assms(3)] nth_update2 [OF r c]
    by (simp add: eq)
qed

lemma getNextCell_ahead: "getNextCell c d = Some c' \<Longrightarrow> ahead d c' c"
  by (auto simp: getNextCell_def ahead_def split: Direction.splits if_splits)

lemma ahead_trans: "ahead d a b \<Longrightarrow> ahead d b c \<Longrightarrow> ahead d a c"
  by (auto simp: ahead_def split: Direction.splits)

lemma farthestLoop_far:
  assumes "farthestLoop d g m prev cur = (far, nxt)"
    and "\<And>c. cur = Some c \<Longrightarrow> ahead d c start"
  shows "far = prev \<or> (isWithinBounds far (length g) \<and> readCell g far = Null \<and> ahead d far start)"
  using assms
proof (induction d g m prev cur rule: farthestLoop.induct)
  case (1 direction g merged previous)
  then show ?case by simp
next
  case (2 direction g merged previous current)
  show ?case
  proof (cases "isWithinBounds current (length g) \<and> \<not> (readCell g current \<noteq> Null \<or> current \<in> merged)")
    case True
    have st: "ahead direction current start" using "2.prems"(2) by simp
    have rec: "farthestLoop direction g merged current (getNextCell current direction) = (far, nxt)"
      using "2.prems"(1) True by simp
    have "far = current \<or>
          (isWithinBounds far (length g) \<and> readCell g far = Null \<and> ahead direction far start)"
    proof (rule "2.IH" [OF _ _ rec])
      show "isWithinBounds current (length g)" using True by simp
      show "\<not> (readCell g current \<noteq> Null \<or> current \<in> merged)" using True by simp
      fix c assume "getNextCell current direction = Some c"
      then show "ahead direction c start"
        using getNextCell_ahead ahead_trans st by blast
    qed
    then show ?thesis using True st by auto
  next
    case False
    then have "far = previous" using "2.prems"(1) by (auto split: if_splits)
    then show ?thesis by simp
  qed
qed

lemma findFarthestPosition_props:
  assumes "findFarthestPosition cell d g m = (far, nxt)"
  shows "far = cell \<or> (isWithinBounds far (length g) \<and> readCell g far = Null \<and> ahead d far cell)"
    and "\<And>c. nxt = Some c \<Longrightarrow> isWithinBounds c (length g)"
proof -
  obtain p c where fl: "farthestLoop d g m cell (getNextCell cell d) = (p, c)"
    by (cases "farthestLoop d g m cell (getNextCell cell d)") auto
  with assms have far: "far = p"
    and nxt: "nxt = (case c of None \<Rightarrow> None | Some c \<Rightarrow> if isWithinBounds c (length g) then Some c else None)"
    by (auto simp: findFarthestPosition_def)
  show "far = cell \<or> (isWithinBounds far (length g) \<and> readCell g far = Null \<and> ahead d far cell)"
    unfolding far by (rule farthestLoop_far [OF fl]) (rule getNextCell_ahead)
  show "\<And>c. nxt = Some c \<Longrightarrow> isWithinBounds c (length g)"
    unfolding nxt by (auto split: option.splits if_splits)
qed

lemma sorted_wrt_concat_map:
  assumes "\<And>x. x \<in> set xs \<Longrightarrow> sorted_wrt P (f x)"
    and "sorted_wrt (\<lambda>x y. \<forall>a\<in>set (f x). \<forall>b\<in>set (f y). P a b) xs"
  shows "sorted_wrt P (concat (map f xs))"
  using assms by (induction xs) (auto simp: sorted_wrt_append)

lemma traversal_order: "sorted_wrt (laterOK d) (getTraversalOrder d n)"
proof -
  have lt: "sorted_wrt (<) [0..<n]" by simp
  have gt: "sorted_wrt (>) (rev [0..<n])" by (simp add: sorted_wrt_rev)
  have neq: "sorted_wrt (\<noteq>) [0..<n]"
    by (rule sorted_wrt_mono_rel [OF _ lt]) auto
  show ?thesis
  proof (cases d)
    case Up
    show ?thesis unfolding Up getTraversalOrder_def Direction.case
    proof (rule sorted_wrt_concat_map)
      fix c
      show "sorted_wrt (laterOK Up) (map (\<lambda>r. \<lparr>row = int r, col = int c\<rparr>) [0..<n])"
        unfolding sorted_wrt_map
        by (rule sorted_wrt_mono_rel [OF _ lt]) (auto simp: laterOK_def ahead_def)
      show "sorted_wrt (\<lambda>x y. \<forall>a\<in>set (map (\<lambda>r. \<lparr>row = int r, col = int x\<rparr>) [0..<n]).
              \<forall>b\<in>set (map (\<lambda>r. \<lparr>row = int r, col = int y\<rparr>) [0..<n]). laterOK Up a b) [0..<n]"
        by (rule sorted_wrt_mono_rel [OF _ neq]) (auto simp: laterOK_def ahead_def)
    qed
  next
    case Down
    show ?thesis unfolding Down getTraversalOrder_def Direction.case
    proof (rule sorted_wrt_concat_map)
      fix c
      show "sorted_wrt (laterOK Down) (map (\<lambda>r. \<lparr>row = int r, col = int c\<rparr>) (rev [0..<n]))"
        unfolding sorted_wrt_map
        by (rule sorted_wrt_mono_rel [OF _ gt]) (auto simp: laterOK_def ahead_def)
      show "sorted_wrt (\<lambda>x y. \<forall>a\<in>set (map (\<lambda>r. \<lparr>row = int r, col = int x\<rparr>) (rev [0..<n])).
              \<forall>b\<in>set (map (\<lambda>r. \<lparr>row = int r, col = int y\<rparr>) (rev [0..<n])). laterOK Down a b) [0..<n]"
        by (rule sorted_wrt_mono_rel [OF _ neq]) (auto simp: laterOK_def ahead_def)
    qed
  next
    case Left
    show ?thesis unfolding Left getTraversalOrder_def Direction.case
    proof (rule sorted_wrt_concat_map)
      fix r
      show "sorted_wrt (laterOK Left) (map (\<lambda>c. \<lparr>row = int r, col = int c\<rparr>) [0..<n])"
        unfolding sorted_wrt_map
        by (rule sorted_wrt_mono_rel [OF _ lt]) (auto simp: laterOK_def ahead_def)
      show "sorted_wrt (\<lambda>x y. \<forall>a\<in>set (map (\<lambda>c. \<lparr>row = int x, col = int c\<rparr>) [0..<n]).
              \<forall>b\<in>set (map (\<lambda>c. \<lparr>row = int y, col = int c\<rparr>) [0..<n]). laterOK Left a b) [0..<n]"
        by (rule sorted_wrt_mono_rel [OF _ neq]) (auto simp: laterOK_def ahead_def)
    qed
  next
    case Right
    show ?thesis unfolding Right getTraversalOrder_def Direction.case
    proof (rule sorted_wrt_concat_map)
      fix r
      show "sorted_wrt (laterOK Right) (map (\<lambda>c. \<lparr>row = int r, col = int c\<rparr>) (rev [0..<n]))"
        unfolding sorted_wrt_map
        by (rule sorted_wrt_mono_rel [OF _ gt]) (auto simp: laterOK_def ahead_def)
      show "sorted_wrt (\<lambda>x y. \<forall>a\<in>set (map (\<lambda>c. \<lparr>row = int x, col = int c\<rparr>) (rev [0..<n])).
              \<forall>b\<in>set (map (\<lambda>c. \<lparr>row = int y, col = int c\<rparr>) (rev [0..<n])). laterOK Right a b) [0..<n]"
        by (rule sorted_wrt_mono_rel [OF _ neq]) (auto simp: laterOK_def ahead_def)
    qed
  qed
qed

lemma traversal_within: "c \<in> set (getTraversalOrder d n) \<Longrightarrow> isWithinBounds c n"
  by (cases d) (auto simp: getTraversalOrder_def isWithinBounds_def)

section \<open>Move engine: the tiles of a grid\<close>

lemma slotTiles_slotOf [simp]: "slotTiles (slotOf x) = optTiles x"
  by (cases x) (simp_all add: slotTiles_def slotOf_def optTiles_def)

lemma rowTiles_mset: "mset (rowTiles r) = (\<Sum>x\<leftarrow>r. optTiles x)"
  by (induction r) (auto simp: rowTiles_def optTiles_def split: option.splits)

lemma getAllTiles_mset: "mset (getAllTiles g) = (\<Sum>r\<leftarrow>g. \<Sum>x\<leftarrow>r. optTiles x)"
  by (induction g) (auto simp: getAllTiles_def rowTiles_mset)

lemma sum_list_update_balance:
  fixes f :: "'a \<Rightarrow> 'b::comm_monoid_add"
  assumes "i < length xs"
  shows "(\<Sum>x\<leftarrow>xs[i := y]. f x) + f (xs ! i) = (\<Sum>x\<leftarrow>xs. f x) + f y"
  using assms
proof (induction xs arbitrary: i)
  case Nil
  then show ?case by simp
next
  case (Cons a xs)
  show ?case
  proof (cases i)
    case 0
    then show ?thesis by (simp add: ac_simps)
  next
    case (Suc j)
    with Cons.prems have "j < length xs" by simp
    from Cons.IH [OF this] show ?thesis by (simp add: Suc add.assoc)
  qed
qed

lemma getAllTiles_update:
  assumes "r < length g" "c < length (g ! r)"
  shows "mset (getAllTiles (g[r := (g ! r)[c := x]])) + optTiles (g ! r ! c) =
         mset (getAllTiles g) + optTiles x"
proof -
  let ?F = "\<lambda>row. \<Sum>x\<leftarrow>row. optTiles x"
  have row: "?F ((g ! r)[c := x]) + optTiles (g ! r ! c) = ?F (g ! r) + optTiles x"
    by (rule sum_list_update_balance [OF assms(2)])
  have all: "(\<Sum>row\<leftarrow>g[r := (g ! r)[c := x]]. ?F row) + ?F (g ! r) =
             (\<Sum>row\<leftarrow>g. ?F row) + ?F ((g ! r)[c := x])"
    by (rule sum_list_update_balance [OF assms(1)])
  have "(\<Sum>row\<leftarrow>g[r := (g ! r)[c := x]]. ?F row) + optTiles (g ! r ! c) + ?F (g ! r) =
        (\<Sum>row\<leftarrow>g. ?F row) + optTiles x + ?F (g ! r)"
    using row all by (metis (no_types, lifting) add.assoc add.commute)
  then show ?thesis by (simp add: getAllTiles_mset)
qed

lemma sum_list_cells:
  fixes h :: "Cell \<Rightarrow> 'b::comm_monoid_add"
  shows "(\<Sum>cell\<leftarrow>concat (map (\<lambda>a. map (k a) bs) as). h cell) = (\<Sum>a\<leftarrow>as. \<Sum>b\<leftarrow>bs. h (k a b))"
  by (induction as) (simp_all add: comp_def)

lemma sum_list_rev_upt:
  fixes f :: "nat \<Rightarrow> 'b::comm_monoid_add"
  shows "(\<Sum>i\<leftarrow>rev [0..<n]. f i) = (\<Sum>i\<leftarrow>[0..<n]. f i)"
  unfolding rev_map [symmetric] by (rule sum_list_rev)

lemma sum_list_swap_upt:
  fixes f :: "nat \<Rightarrow> nat \<Rightarrow> 'b::comm_monoid_add"
  shows "(\<Sum>a\<leftarrow>[0..<n]. \<Sum>b\<leftarrow>[0..<m]. f a b) = (\<Sum>b\<leftarrow>[0..<m]. \<Sum>a\<leftarrow>[0..<n]. f a b)"
  by (simp add: interv_sum_list_conv_sum_set_nat) (rule sum.swap)

lemma tilesAt_traversal_sum:
  "tilesAt g (getTraversalOrder d n) =
     (\<Sum>r\<leftarrow>[0..<n]. \<Sum>c\<leftarrow>[0..<n]. slotTiles (readCell g \<lparr>row = int r, col = int c\<rparr>))"
proof (cases d)
  case Up
  show ?thesis unfolding Up tilesAt_def getTraversalOrder_def Direction.case sum_list_cells
    by (rule sum_list_swap_upt)
next
  case Down
  show ?thesis unfolding Down tilesAt_def getTraversalOrder_def Direction.case sum_list_cells
      sum_list_rev_upt
    by (rule sum_list_swap_upt)
next
  case Left
  show ?thesis unfolding Left tilesAt_def getTraversalOrder_def Direction.case sum_list_cells
    by (rule refl)
next
  case Right
  show ?thesis unfolding Right tilesAt_def getTraversalOrder_def Direction.case sum_list_cells
      sum_list_rev_upt
    by (rule refl)
qed

lemma getAllTiles_square_sum:
  assumes "squareOf n g"
  shows "mset (getAllTiles g) =
     (\<Sum>r\<leftarrow>[0..<n]. \<Sum>c\<leftarrow>[0..<n]. slotTiles (readCell g \<lparr>row = int r, col = int c\<rparr>))"
proof -
  have len: "length g = n" using assms by (simp add: squareOf_def)
  have rowlen: "length (g ! r) = n" if "r < n" for r
    using assms that by (auto simp: squareOf_def)
  have cell: "slotTiles (readCell g \<lparr>row = int r, col = int c\<rparr>) = optTiles (g ! r ! c)"
    if "r < n" "c < n" for r c
    using readCell_within [OF assms, of "\<lparr>row = int r, col = int c\<rparr>"] that
    by (simp add: isWithinBounds_def)
  have rows: "(\<Sum>x\<leftarrow>g ! r. optTiles x) = (\<Sum>c\<leftarrow>[0..<n]. optTiles (g ! r ! c))" if "r < n" for r
  proof -
    have "g ! r = map (\<lambda>c. g ! r ! c) [0..<n]"
      using rowlen [OF that] by (metis map_nth)
    then have "map optTiles (g ! r) = map (\<lambda>c. optTiles (g ! r ! c)) [0..<n]"
      by (metis (no_types, lifting) map_map comp_def map_eq_conv)
    then show ?thesis by simp
  qed
  have "g = map (\<lambda>r. g ! r) [0..<n]"
    using len by (metis map_nth)
  then have "(\<Sum>r\<leftarrow>g. \<Sum>x\<leftarrow>r. optTiles x) = (\<Sum>r\<leftarrow>[0..<n]. \<Sum>x\<leftarrow>g ! r. optTiles x)"
    by (metis (no_types, lifting) map_map comp_def map_eq_conv)
  also have "\<dots> = (\<Sum>r\<leftarrow>[0..<n]. \<Sum>c\<leftarrow>[0..<n]. optTiles (g ! r ! c))"
    by (rule arg_cong [where f = sum_list], rule map_cong [OF refl]) (simp add: rows)
  also have "\<dots> = (\<Sum>r\<leftarrow>[0..<n]. \<Sum>c\<leftarrow>[0..<n]. slotTiles (readCell g \<lparr>row = int r, col = int c\<rparr>))"
    by (intro arg_cong [where f = sum_list] map_cong refl) (simp add: cell)
  finally show ?thesis by (simp add: getAllTiles_mset)
qed

lemma tilesAt_traversal:
  assumes "squareGrid g"
  shows "tilesAt g (getTraversalOrder d (length g)) = mset (getAllTiles g)"
  using assms by (simp add: squareGrid_def tilesAt_traversal_sum getAllTiles_square_sum)

section \<open>Move engine: the loop invariant\<close>

lemma sumValues_sum_mset: "sumValues g = sum_mset (tileValues g)"
  unfolding sumValues_def tileValues_def by (rule sum_mset_sum_list [symmetric])

lemma tileValues_image: "tileValues g = image_mset tile_value (mset (getAllTiles g))"
  by (simp add: tileValues_def)

lemma valuesAt_Cons:
  "valuesAt g (c # cs) = image_mset tile_value (slotTiles (readCell g c)) + valuesAt g cs"
  by (simp add: valuesAt_def tilesAt_def)

lemma rowTiles_member: "t \<in> set (rowTiles xs) \<longleftrightarrow> (\<exists>c<length xs. xs ! c = Some t)"
proof -
  have "t \<in> set (rowTiles xs) \<longleftrightarrow> Some t \<in> set xs"
    by (induction xs) (auto simp: rowTiles_def split: option.splits)
  then show ?thesis by (auto simp: in_set_conv_nth)
qed

lemma getAllTiles_member:
  "t \<in> set (getAllTiles g) \<longleftrightarrow> (\<exists>r<length g. \<exists>c<length (g ! r). g ! r ! c = Some t)"
proof -
  have "t \<in> set (getAllTiles g) \<longleftrightarrow> (\<exists>xs\<in>set g. t \<in> set (rowTiles xs))"
    by (simp add: getAllTiles_def)
  also have "\<dots> \<longleftrightarrow> (\<exists>r<length g. t \<in> set (rowTiles (g ! r)))"
    by (metis in_set_conv_nth)
  also have "\<dots> \<longleftrightarrow> (\<exists>r<length g. \<exists>c<length (g ! r). g ! r ! c = Some t)"
    by (simp only: rowTiles_member)
  finally show ?thesis .
qed

lemma positionsMatch_put:
  assumes "squareOf n g" "isWithinBounds p n" "positionsMatch g" "position t = p"
  shows "positionsMatch (putTile g p t)"
proof -
  have r: "nat (row p) < length g" using assms by (auto simp: squareOf_def isWithinBounds_def)
  then have c: "nat (col p) < length (g ! nat (row p))"
    using assms by (auto simp: squareOf_def isWithinBounds_def)
  have p: "p = \<lparr>row = int (nat (row p)), col = int (nat (col p))\<rparr>"
    using assms(2) by (simp add: isWithinBounds_def cell_eq_iff)
  show ?thesis
    unfolding positionsMatch_def putTile_def
  proof (intro allI impI)
    fix r' c' t'
    assume r': "r' < length (g[nat (row p) := (g ! nat (row p))[nat (col p) := Some t]])"
      and c': "c' < length (g[nat (row p) := (g ! nat (row p))[nat (col p) := Some t]] ! r')"
      and t': "g[nat (row p) := (g ! nat (row p))[nat (col p) := Some t]] ! r' ! c' = Some t'"
    have r'': "r' < length g" using r' by simp
    have c'': "c' < length (g ! r')" using c' r'' by (cases "r' = nat (row p)") simp_all
    show "position t' = \<lparr>row = int r', col = int c'\<rparr>"
    proof (cases "r' = nat (row p) \<and> c' = nat (col p)")
      case True
      with t' nth_update2 [OF r c] have "t' = t" by simp
      with True p assms(4) show ?thesis by simp
    next
      case False
      with t' nth_update2 [OF r c] have "g ! r' ! c' = Some t'" by auto
      with assms(3) r'' c'' show ?thesis by (auto simp: positionsMatch_def)
    qed
  qed
qed

lemma put_props:
  assumes "squareOf n g" "isWithinBounds p n"
  shows "writeCell g p (Some t) = Inr (putTile g p t)"
    and "squareOf n (putTile g p t)"
    and "\<And>q. isWithinBounds q n \<Longrightarrow>
           readCell (putTile g p t) q = (if q = p then Filled t else readCell g q)"
    and "tileValues (putTile g p t) + image_mset tile_value (slotTiles (readCell g p)) =
         tileValues g + {#tile_value t#}"
    and "tile_value t \<in># tileValues (putTile g p t)"
proof -
  have r: "nat (row p) < length g" using assms by (auto simp: squareOf_def isWithinBounds_def)
  then have c: "nat (col p) < length (g ! nat (row p))"
    using assms by (auto simp: squareOf_def isWithinBounds_def)
  show "writeCell g p (Some t) = Inr (putTile g p t)"
    unfolding putTile_def by (rule writeCell_within [OF assms])
  show "squareOf n (putTile g p t)"
    unfolding putTile_def by (rule squareOf_update [OF assms(1)])
  show "\<And>q. isWithinBounds q n \<Longrightarrow>
           readCell (putTile g p t) q = (if q = p then Filled t else readCell g q)"
    unfolding putTile_def using readCell_update [OF assms, of _ "Some t"]
    by (simp add: slotOf_def)
  have "mset (getAllTiles (putTile g p t)) + optTiles (g ! nat (row p) ! nat (col p)) =
        mset (getAllTiles g) + optTiles (Some t)"
    unfolding putTile_def by (rule getAllTiles_update [OF r c])
  then have "image_mset tile_value
               (mset (getAllTiles (putTile g p t)) + optTiles (g ! nat (row p) ! nat (col p))) =
             image_mset tile_value (mset (getAllTiles g) + optTiles (Some t))"
    by simp
  then show "tileValues (putTile g p t) + image_mset tile_value (slotTiles (readCell g p)) =
         tileValues g + {#tile_value t#}"
    by (simp add: tileValues_image readCell_within [OF assms] optTiles_def)
  have "putTile g p t ! nat (row p) ! nat (col p) = Some t"
    unfolding putTile_def using nth_update2 [OF r c] by simp
  moreover have "nat (row p) < length (putTile g p t)"
    and "nat (col p) < length (putTile g p t ! nat (row p))"
    using r c by (simp_all add: putTile_def)
  ultimately have "t \<in> set (getAllTiles (putTile g p t))"
    unfolding getAllTiles_member by blast
  then show "tile_value t \<in># tileValues (putTile g p t)"
    by (simp add: tileValues_def)
qed

lemma mergePartner_cases:
  assumes "squareOf n g" "\<forall>c. nxt = Some c \<longrightarrow> isWithinBounds c n"
  shows "mergePartner g m tile nxt = Inr None \<or>
         (\<exists>nx nt. mergePartner g m tile nxt = Inr (Some (nx, nt)) \<and> isWithinBounds nx n \<and>
            readCell g nx = Filled nt \<and> tile_value nt = tile_value tile)"
proof (cases nxt)
  case None
  then show ?thesis by (simp add: mergePartner_def)
next
  case (Some nx)
  then have inb: "isWithinBounds nx n" using assms(2) by simp
  show ?thesis
    using readCell_within [OF assms(1) inb] inb
    by (cases "g ! nat (row nx) ! nat (col nx)")
      (auto simp: mergePartner_def Some slotOf_def)
qed

lemma moveStep_inv:
  assumes inv: "loopInv n g allValues (cell # rest) a"
    and sq: "squareOf n g"
    and inb: "isWithinBounds cell n"
    and later: "\<forall>x\<in>set rest. laterOK d cell x"
    and rest_inb: "\<forall>x\<in>set rest. isWithinBounds x n"
  shows "\<exists>a'. moveStep now g d cell a = Inr a' \<and> loopInv n g allValues rest a'"
proof -
  let ?G = "newGrid a"
  have sqG: "squareOf n ?G" and pm: "positionsMatch ?G"
    and empties: "\<forall>c\<in>set (cell # rest). readCell ?G c = Null"
    and sc: "scoreAcc a = sum_list (map tile_value (mergedAcc a))"
    and sm: "sum_mset (tileValues ?G) + sum_mset (valuesAt g (cell # rest)) = sum_mset allValues"
    and ms: "mergedAcc a = [] \<longrightarrow> tileValues ?G + valuesAt g (cell # rest) = allValues"
    and dom: "\<forall>w\<in>#allValues. 0 \<le> w \<longrightarrow>
                (\<exists>u\<in>#tileValues ?G + valuesAt g (cell # rest). w \<le> u)"
    using inv by (simp_all add: loopInv_def)
  have lenG: "length ?G = n" using sqG by (simp add: squareOf_def)
  show ?thesis
  proof (cases "g ! nat (row cell) ! nat (col cell)")
    case None
    then have rd: "readCell g cell = Null"
      using readCell_within [OF sq inb] by (simp add: slotOf_def)
    then have "moveStep now g d cell a = Inr a" by (simp add: moveStep_def)
    moreover have "loopInv n g allValues rest a"
      using inv rd by (simp add: loopInv_def valuesAt_Cons slotTiles_def)
    ultimately show ?thesis by simp
  next
    case (Some tile)
    then have rd: "readCell g cell = Filled tile"
      using readCell_within [OF sq inb] by (simp add: slotOf_def)
    then have vc: "valuesAt g (cell # rest) = {#tile_value tile#} + valuesAt g rest"
      by (simp add: valuesAt_Cons slotTiles_def)
    obtain far nxt where ff: "findFarthestPosition cell d ?G (mergedCells a) = (far, nxt)"
      by (cases "findFarthestPosition cell d ?G (mergedCells a)") auto
    have far: "far = cell \<or> (isWithinBounds far n \<and> readCell ?G far = Null \<and> ahead d far cell)"
      and nxt: "\<And>c. nxt = Some c \<Longrightarrow> isWithinBounds c n"
      using findFarthestPosition_props [OF ff] lenG by auto
    have far_inb: "isWithinBounds far n" using far inb by auto
    have far_null: "readCell ?G far = Null" using far empties by auto
    have far_rest: "far \<notin> set rest" using far later by (auto simp: laterOK_def)
    have step: "moveStep now g d cell a =
      (case mergePartner ?G (mergedCells a) tile nxt of
         Inl e \<Rightarrow> Inl e
       | Inr None \<Rightarrow>
           placeTile a tile (Tile (tile_id tile) (tile_value tile) far (mergedFrom tile)) far
       | Inr (Some (nx, nextTile)) \<Rightarrow>
           (let mergedValue = tile_value tile * 2;
                (created, k') = createTile now (tileIdCounter a) nx mergedValue;
                mergedTile = Tile (tile_id created) (tile_value created) (position created)
                    (Some [snapshotTile tile, snapshotTile nextTile])
            in placeTile
                 (a\<lparr>mergedCells := insert nx (mergedCells a),
                    scoreAcc := scoreAcc a + mergedValue,
                    mergedAcc := mergedAcc a @ [mergedTile],
                    tileIdCounter := k'\<rparr>)
                 tile mergedTile nx))"
      by (simp add: moveStep_def rd ff)
    have nxt': "\<forall>c. nxt = Some c \<longrightarrow> isWithinBounds c n" using nxt by blast
    from mergePartner_cases [OF sqG nxt', of "mergedCells a" tile]
    show ?thesis
    proof (elim disjE exE conjE)
      assume mp: "mergePartner ?G (mergedCells a) tile nxt = Inr None"
      let ?t = "Tile (tile_id tile) (tile_value tile) far (mergedFrom tile)"
      let ?a' = "a\<lparr>newGrid := putTile ?G far ?t,
                    movedAcc := (if row far \<noteq> row (position tile) \<or> col far \<noteq> col (position tile)
                                 then True else movedAcc a)\<rparr>"
      note pp = put_props [OF sqG far_inb, where t = "?t"]
      have res: "moveStep now g d cell a = Inr ?a'"
        by (simp add: step mp placeTile_def pp(1))
      have vals: "tileValues (putTile ?G far ?t) = tileValues ?G + {#tile_value tile#}"
        using pp(4) far_null by (simp add: slotTiles_def)
      have "loopInv n g allValues rest ?a'"
        unfolding loopInv_def
      proof (intro conjI)
        show "squareOf n (newGrid ?a')" using pp(2) by simp
        show "positionsMatch (newGrid ?a')"
          using positionsMatch_put [OF sqG far_inb pm, where t = "?t"] by simp
        show "\<forall>c\<in>set rest. readCell (newGrid ?a') c = Null"
          using pp(3) far_rest empties rest_inb by auto
        show "scoreAcc ?a' = sum_list (map tile_value (mergedAcc ?a'))" using sc by simp
        show "sum_mset (tileValues (newGrid ?a')) + sum_mset (valuesAt g rest) = sum_mset allValues"
          using sm by (simp add: vals vc)
        show "mergedAcc ?a' = [] \<longrightarrow> tileValues (newGrid ?a') + valuesAt g rest = allValues"
          using ms by (simp add: vals vc)
        show "\<forall>w\<in>#allValues. 0 \<le> w \<longrightarrow>
                (\<exists>u\<in>#tileValues (newGrid ?a') + valuesAt g rest. w \<le> u)"
          using dom by (simp add: vals vc ac_simps)
      qed
      with res show ?thesis by blast
    next
      fix nx nt
      assume mp: "mergePartner ?G (mergedCells a) tile nxt = Inr (Some (nx, nt))"
        and nx_inb: "isWithinBounds nx n"
        and nx_rd: "readCell ?G nx = Filled nt"
        and nt_val: "tile_value nt = tile_value tile"
      obtain created k' where ct: "createTile now (tileIdCounter a) nx (tile_value tile * 2) = (created, k')"
        by (cases "createTile now (tileIdCounter a) nx (tile_value tile * 2)") auto
      then have cv: "tile_value created = tile_value tile * 2" and cp: "position created = nx"
        by (auto simp: createTile_def generateTileId_def)
      let ?t = "Tile (tile_id created) (tile_value created) (position created)
                  (Some [snapshotTile tile, snapshotTile nt])"
      let ?a' = "a\<lparr>mergedCells := insert nx (mergedCells a),
                    scoreAcc := scoreAcc a + tile_value tile * 2,
                    mergedAcc := mergedAcc a @ [?t],
                    tileIdCounter := k',
                    newGrid := putTile ?G nx ?t,
                    movedAcc := (if row nx \<noteq> row (position tile) \<or> col nx \<noteq> col (position tile)
                                 then True else movedAcc a)\<rparr>"
      note pp = put_props [OF sqG nx_inb, where t = "?t"]
      have res: "moveStep now g d cell a = Inr ?a'"
        by (simp add: step mp ct placeTile_def pp(1) Let_def)
      have vals: "tileValues (putTile ?G nx ?t) + {#tile_value tile#} =
                  tileValues ?G + {#tile_value tile * 2#}"
        using pp(4) nx_rd by (simp add: slotTiles_def nt_val cv)
      then have "sum_mset (tileValues (putTile ?G nx ?t) + {#tile_value tile#}) =
                 sum_mset (tileValues ?G + {#tile_value tile * 2#})"
        by simp
      then have sums: "sum_mset (tileValues (putTile ?G nx ?t)) =
                       sum_mset (tileValues ?G) + tile_value tile"
        by simp
      have nx_rest: "nx \<notin> set rest" using empties nx_rd by auto
      have "loopInv n g allValues rest ?a'"
        unfolding loopInv_def
      proof (intro conjI)
        show "squareOf n (newGrid ?a')" using pp(2) by simp
        show "positionsMatch (newGrid ?a')"
          using positionsMatch_put [OF sqG nx_inb pm, where t = "?t"] cp by simp
        show "\<forall>c\<in>set rest. readCell (newGrid ?a') c = Null"
          using pp(3) nx_rest empties rest_inb by auto
        show "scoreAcc ?a' = sum_list (map tile_value (mergedAcc ?a'))" using sc by (simp add: cv)
        show "sum_mset (tileValues (newGrid ?a')) + sum_mset (valuesAt g rest) = sum_mset allValues"
          using sm by (simp add: sums vc)
        show "mergedAcc ?a' = [] \<longrightarrow> tileValues (newGrid ?a') + valuesAt g rest = allValues"
          by simp
        show "\<forall>w\<in>#allValues. 0 \<le> w \<longrightarrow>
                (\<exists>u\<in>#tileValues (newGrid ?a') + valuesAt g rest. w \<le> u)"
        proof (intro ballI impI)
          fix w assume w: "w \<in># allValues" "0 \<le> w"
          with dom obtain u where u: "u \<in># tileValues ?G + valuesAt g (cell # rest)"
            and wu: "w \<le> u"
            by blast
          have dbl: "tile_value tile * 2 \<in># tileValues (putTile ?G nx ?t)"
            using pp(5) by (simp add: cv)
          have old: "v \<in># tileValues (putTile ?G nx ?t) \<or> v = tile_value tile"
            if "v \<in># tileValues ?G" for v
          proof -
            from that have "v \<in># tileValues ?G + {#tile_value tile * 2#}" by simp
            then have "v \<in># tileValues (putTile ?G nx ?t) + {#tile_value tile#}"
              by (simp only: vals)
            then show ?thesis by auto
          qed
          from u consider "u \<in># tileValues ?G" | "u = tile_value tile"
            | "u \<in># valuesAt g rest"
            by (auto simp: vc)
          then show "\<exists>u\<in>#tileValues (newGrid ?a') + valuesAt g rest. w \<le> u"
          proof cases
            case 1
            from old [OF 1] show ?thesis
            proof
              assume "u \<in># tileValues (putTile ?G nx ?t)"
              with wu show ?thesis by auto
            next
              assume "u = tile_value tile"
              with wu w(2) have "w \<le> tile_value tile * 2" by simp
              with dbl show ?thesis by auto
            qed
          next
            case 2
            with wu w(2) have "w \<le> tile_value tile * 2" by simp
            with dbl show ?thesis by auto
          next
            case 3
            with wu show ?thesis by auto
          qed
        qed
      qed
      with res show ?thesis by blast
    qed
  qed
qed

lemma moveLoop_inv:
  assumes "loopInv n g allValues cells a"
    and "squareOf n g"
    and "sorted_wrt (laterOK d) cells"
    and "\<forall>x\<in>set cells. isWithinBounds x n"
  shows "\<exists>a'. moveLoop now g d cells a = Inr a' \<and> loopInv n g allValues [] a'"
  using assms
proof (induction cells arbitrary: a)
  case Nil
  then show ?case by simp
next
  case (Cons cell rest)
  have "\<exists>a1. moveStep now g d cell a = Inr a1 \<and> loopInv n g allValues rest a1"
    by (rule moveStep_inv [OF Cons.prems(1,2)]) (use Cons.prems in auto)
  then obtain a1 where s: "moveStep now g d cell a = Inr a1" and i: "loopInv n g allValues rest a1"
    by blast
  have "\<exists>a'. moveLoop now g d rest a1 = Inr a' \<and> loopInv n g allValues [] a'"
    by (rule Cons.IH [OF i Cons.prems(2)]) (use Cons.prems in auto)
  then show ?case by (simp add: s)
qed

section \<open>Move engine: the whole move\<close>

lemma createEmptyGrid_square: "squareOf n (createEmptyGrid n)"
  by (simp add: squareOf_def createEmptyGrid_def)

lemma createEmptyGrid_positions: "positionsMatch (createEmptyGrid n)"
  by (simp add: positionsMatch_def createEmptyGrid_def)

lemma createEmptyGrid_read:
  assumes "isWithinBounds c n"
  shows "readCell (createEmptyGrid n) c = Null"
proof -
  have "nat (row c) < n" "nat (col c) < n"
    using assms by (auto simp: isWithinBounds_def)
  then have "createEmptyGrid n ! nat (row c) ! nat (col c) = None"
    by (simp add: createEmptyGrid_def)
  then show ?thesis
    using readCell_within [OF createEmptyGrid_square assms] by (simp add: slotOf_def)
qed

lemma rowTiles_replicate: "rowTiles (replicate n None) = []"
  by (induction n) (simp_all add: rowTiles_def)

lemma getAllTiles_empty: "getAllTiles (createEmptyGrid n) = []"
proof -
  have "concat (replicate m ([]::Tile list)) = []" for m
    by (induction m) simp_all
  then show ?thesis
    by (simp add: getAllTiles_def createEmptyGrid_def rowTiles_replicate)
qed

lemma createEmptyGrid_values: "tileValues (createEmptyGrid n) = {#}"
  by (simp add: tileValues_def getAllTiles_empty)

lemma valuesAt_traversal:
  "squareGrid g \<Longrightarrow> valuesAt g (getTraversalOrder d (length g)) = tileValues g"
  by (simp add: valuesAt_def tilesAt_traversal tileValues_def)

lemma performMove_correct:
  assumes "squareGrid g"
  shows "\<exists>res k'. performMove now k g d = Inr (res, k') \<and>
           squareOf (length g) (pm_grid res) \<and> positionsMatch (pm_grid res) \<and>
           pm_score res = sum_list (map tile_value (pm_mergedTiles res)) \<and>
           sumValues (pm_grid res) = sumValues g \<and>
           (pm_mergedTiles res = [] \<longrightarrow> tileValues (pm_grid res) = tileValues g) \<and>
           (\<forall>w\<in>#tileValues g. 0 \<le> w \<longrightarrow> (\<exists>u\<in>#tileValues (pm_grid res). w \<le> u))"
proof -
  let ?n = "length g"
  let ?a0 = "\<lparr>newGrid = createEmptyGrid ?n, mergedCells = {}, mergedAcc = [],
               movedAcc = False, scoreAcc = 0, tileIdCounter = k\<rparr>"
  let ?cells = "getTraversalOrder d ?n"
  have sq: "squareOf ?n g" using assms by (simp add: squareGrid_def)
  have inb: "\<forall>x\<in>set ?cells. isWithinBounds x ?n"
    using traversal_within by blast
  have init: "loopInv ?n g (tileValues g) ?cells ?a0"
    using inb
    by (auto simp: loopInv_def createEmptyGrid_square createEmptyGrid_positions
        createEmptyGrid_read createEmptyGrid_values valuesAt_traversal [OF assms])
  from moveLoop_inv [OF init sq traversal_order inb, of now]
  obtain a' where run: "moveLoop now g d ?cells ?a0 = Inr a'"
    and fin: "loopInv ?n g (tileValues g) [] a'"
    by blast
  have pm: "performMove now k g d =
      Inr (\<lparr>pm_grid = newGrid a', pm_moved = movedAcc a', pm_score = scoreAcc a',
            pm_mergedTiles = mergedAcc a'\<rparr>, tileIdCounter a')"
    by (simp add: performMove_def run)
  have "valuesAt g [] = {#}" by (simp add: valuesAt_def tilesAt_def)
  with fin show ?thesis
    by (simp add: pm loopInv_def sumValues_sum_mset)
qed

lemma selectSpawnValue_total:
  assumes "svs \<noteq> []"
  shows "\<exists>v. selectSpawnValue add svs r = Inr v"
  using assms by (cases svs) (auto simp: selectSpawnValue_def split: option.splits)

section \<open>Spawning keeps the grid well formed\<close>

lemma copyTile_id: "copyTile t = t"
  by (cases t) (simp add: copyTile_def)

lemma cloneTile_id: "cloneTile t = t"
proof -
  have "map copyTile ts = ts" for ts
    by (induction ts) (simp_all add: copyTile_id)
  then have "map_option (map copyTile) m = m" for m
    by (cases m) simp_all
  then show ?thesis by (cases t) (simp add: cloneTile_def)
qed

lemma cloneGrid_id: "cloneGrid g = g"
proof -
  have "map_option cloneTile x = x" for x
    by (cases x) (simp_all add: cloneTile_id)
  then have "map (map_option cloneTile) r = r" for r
    by (induction r) simp_all
  then show ?thesis unfolding cloneGrid_def by (induction g) simp_all
qed

lemma getEmptyCells_member:
  assumes "c \<in> set (getEmptyCells g)"
  shows "\<exists>r<length g. \<exists>k<length (g ! r). c = \<lparr>row = int r, col = int k\<rparr> \<and> g ! r ! k = None"
  using assms by (auto simp: getEmptyCells_def emptyInRow_def split: if_splits)

lemma spawn_index:
  assumes "0 \<le> r" "r < 1" "0 < n"
  shows "0 \<le> \<lfloor>r * real n\<rfloor>" "\<lfloor>r * real n\<rfloor> < int n"
proof -
  show "0 \<le> \<lfloor>r * real n\<rfloor>" using assms by simp
  have "r * real n < real n" using assms by simp
  then show "\<lfloor>r * real n\<rfloor> < int n" by (simp add: floor_less_iff)
qed

lemma spawnRandomTile_cases:
  assumes sq: "squareOf n g"
    and res: "spawnRandomTile now k g svs r1 r2 = Inr (Some g', k')"
  shows "\<exists>c t. c \<in> set (getEmptyCells g) \<and> isWithinBounds c n \<and> position t = c
             \<and> g' = putTile g c t"
proof -
  let ?e = "getEmptyCells g"
  let ?idx = "\<lfloor>r1 * real (length ?e)\<rfloor>"
  from res have ne: "length ?e \<noteq> 0"
    by (auto simp: spawnRandomTile_def Let_def split: if_splits)
  from res ne have idx: "0 \<le> ?idx" "?idx < int (length ?e)"
    by (auto simp: spawnRandomTile_def Let_def split: if_splits)
  let ?c = "?e ! nat ?idx"
  have "nat ?idx < length ?e" using idx by linarith
  then have mem: "?c \<in> set ?e" by (rule nth_mem)
  from getEmptyCells_member [OF mem] sq have inb: "isWithinBounds ?c n"
    by (auto simp: isWithinBounds_def squareOf_def)
  from res ne idx obtain v where sv: "selectSpawnValue (+) svs r2 = Inr v"
    by (cases "selectSpawnValue (+) svs r2") (auto simp: spawnRandomTile_def Let_def)
  obtain t k1 where ct: "createTile now k ?c v = (t, k1)"
    by (cases "createTile now k ?c v") auto
  then have pos: "position t = ?c" by (auto simp: createTile_def generateTileId_def)
  have "writeCell g ?c (Some t) = Inr (putTile g ?c t)"
    unfolding putTile_def by (rule writeCell_within [OF sq inb])
  with res ne idx sv ct have "g' = putTile g ?c t"
    by (simp add: spawnRandomTile_def Let_def cloneGrid_id)
  with mem inb pos show ?thesis by blast
qed

lemma spawnRandomTile_invariant:
  assumes "gridInvariant g" "spawnRandomTile now k g svs r1 r2 = Inr (Some g', k')"
  shows "gridInvariant g'"
proof -
  have sq: "squareOf (length g) g" and pm: "positionsMatch g"
    using assms(1) by (simp_all add: gridInvariant_def squareGrid_def)
  from spawnRandomTile_cases [OF sq assms(2)]
  obtain c t where inb: "isWithinBounds c (length g)" and pos: "position t = c"
    and g': "g' = putTile g c t"
    by blast
  have "squareOf (length g) g'"
    unfolding g' putTile_def by (rule squareOf_update [OF sq])
  moreover have "positionsMatch g'"
    unfolding g' by (rule positionsMatch_put [OF sq inb pm pos])
  ultimately show ?thesis
    by (auto simp: gridInvariant_def squareGrid_def squareOf_def)
qed

lemma spawnRandomTile_total:
  assumes sq: "squareOf n g" and svs: "svs \<noteq> []" and r1: "0 \<le> r1" "r1 < 1"
  shows "\<exists>x k'. spawnRandomTile now k g svs r1 r2 = Inr (x, k')"
proof (cases "length (getEmptyCells g) = 0")
  case True
  then show ?thesis by (simp add: spawnRandomTile_def)
next
  case False
  let ?e = "getEmptyCells g"
  let ?idx = "\<lfloor>r1 * real (length ?e)\<rfloor>"
  have idx: "0 \<le> ?idx" "?idx < int (length ?e)"
    using spawn_index [OF r1, of "length ?e"] False by auto
  let ?c = "?e ! nat ?idx"
  have "nat ?idx < length ?e" using idx by linarith
  then have mem: "?c \<in> set ?e" by (rule nth_mem)
  from getEmptyCells_member [OF mem] sq have inb: "isWithinBounds ?c n"
    by (auto simp: isWithinBounds_def squareOf_def)
  obtain v where sv: "selectSpawnValue (+) svs r2 = Inr v"
    using selectSpawnValue_total [OF svs] by blast
  obtain t k1 where ct: "createTile now k ?c v = (t, k1)"
    by (cases "createTile now k ?c v") auto
  have "writeCell g ?c (Some t) = Inr (putTile g ?c t)"
    unfolding putTile_def by (rule writeCell_within [OF sq inb])
  with False idx sv ct show ?thesis
    by (simp add: spawnRandomTile_def Let_def cloneGrid_id)
qed

section \<open>Claims about the move engine\<close>

lemmas engine_defs = performMove_def getTraversalOrder_def createEmptyGrid_def moveStep_def
  readCell_def writeCell_def findFarthestPosition_def getNextCell_def isWithinBounds_def
  mergePartner_def placeTile_def createTile_def generateTileId_def snapshotTile_def Let_def

lemma upt_3: "[0..<3] = [0, 1, 2]"
  by (simp add: upt_rec)

lemma upt_4: "[0..<4] = [0, 1, 2, 3]"
  by (simp add: upt_rec)



lemma pairGrid_sums: "sumValues (pm_grid pairMoved) = 4 \<and> sumValues pairGrid = 4"
  by (simp add: sumValues_def getAllTiles_def rowTiles_def pairMoved_def pairGrid_def
      mergedPair_def tileAt_def)




text \<open>
  Claim C2. On a 4-wide grid whose first row is \<open>[2, 2, 2, null]\<close> and whose other rows are
  empty, \<open>performMove\<close> to the left yields the row \<open>[4, 2, null, null]\<close>, all other rows
  empty, with score \<open>4\<close> and one merged tile of value \<open>4\<close>: the third \<open>2\<close> does not merge
  again. This holds whatever the ids, stored positions and \<open>mergedFrom\<close> of the three tiles.
\<close>

theorem no_double_merge:
  "\<exists>res k'.
     performMove now k
       [[Some (Tile i1 2 p1 m1), Some (Tile i2 2 p2 m2), Some (Tile i3 2 p3 m3), None],
        [None, None, None, None], [None, None, None, None], [None, None, None, None]]
       Left = Inr (res, k')
     \<and> map (map (map_option tile_value)) (pm_grid res) =
         [[Some 4, Some 2, None, None], [None, None, None, None],
          [None, None, None, None], [None, None, None, None]]
     \<and> pm_score res = 4
     \<and> map tile_value (pm_mergedTiles res) = [4]"
  by (simp add: engine_defs upt_4)

section \<open>Game state controller: moves and undo\<close>

lemma determineGameStatus_Won: "determineGameStatus g target Won = Inr Won"
  by (simp add: determineGameStatus_def)

lemma cloneShallow_eq:
  "cloneShallow s =
     GameState (grid s) (score s) (status s) [] (config s) (moveCount s) (wonAndContinued s)"
  by (simp add: cloneShallow_def cloneGrid_id)

lemma move_result:
  assumes "move now k s d r1 r2 = Inr (res, k')"
  shows "res = unchanged s \<or>
         (\<exists>pm k1 g st.
            performMove now k (grid s) d = Inr (pm, k1) \<and> pm_moved pm \<and>
            spawnRandomTile now k1 (pm_grid pm) (spawnValues (config s)) r1 r2
              = Inr (Some g, k') \<and>
            determineGameStatus g (targetValue (config s)) (status s) = Inr st \<and>
            res = \<lparr>newState =
                     GameState g (score s + pm_score pm) st
                       (sliceTo (cloneShallow s # previousStates s) (undoLimit (config s)))
                       (config s) (moveCount s + 1) (wonAndContinued s),
                   moved = True, scoreGained = pm_score pm,
                   mergedTiles = pm_mergedTiles pm\<rparr>)"
proof (cases "status s = Lost")
  case True
  with assms show ?thesis by (simp add: move_def)
next
  case notLost: False
  show ?thesis
  proof (cases "performMove now k (grid s) d")
    case (Inl e)
    with assms notLost show ?thesis by (simp add: move_def)
  next
    case (Inr p)
    obtain pm k1 where p: "p = (pm, k1)" by (cases p)
    note pm = Inr [unfolded p]
    show ?thesis
    proof (cases "pm_moved pm")
      case False
      with assms notLost pm show ?thesis by (simp add: move_def)
    next
      case mv: True
      show ?thesis
      proof (cases "spawnRandomTile now k1 (pm_grid pm) (spawnValues (config s)) r1 r2")
        case (Inl e)
        with assms notLost pm mv show ?thesis by (simp add: move_def)
      next
        case (Inr q)
        obtain x k2 where q: "q = (x, k2)" by (cases q)
        note sp = Inr [unfolded q]
        show ?thesis
        proof (cases x)
          case None
          with assms notLost pm mv sp show ?thesis by (simp add: move_def)
        next
          case (Some g)
          show ?thesis
          proof (cases "determineGameStatus g (targetValue (config s)) (status s)")
            case (Inl e)
            with assms notLost pm mv sp Some show ?thesis by (simp add: move_def)
          next
            case (Inr st)
            with assms notLost pm mv sp Some show ?thesis
              by (auto simp: move_def Let_def cloneGameState_def cloneShallow_def)
          qed
        qed
      qed
    qed
  qed
qed

lemma move_keeps_won:
  assumes "status s = Won" "move now k s d r1 r2 = Inr (res, k')"
  shows "status (newState res) = Won"
  using move_result [OF assms(2)] assms(1)
  by (auto simp: unchanged_def determineGameStatus_Won)

lemma move_total_won:
  assumes won: "status s = Won" and sq: "squareGrid (grid s)"
    and svs: "spawnValues (config s) \<noteq> []" and r1: "0 \<le> r1" "r1 < 1"
  shows "\<exists>res k'. move now k s d r1 r2 = Inr (res, k')"
proof -
  from performMove_correct [OF sq, of now k d]
  obtain pm k1 where pm: "performMove now k (grid s) d = Inr (pm, k1)"
    and sq': "squareOf (length (grid s)) (pm_grid pm)"
    by blast
  from spawnRandomTile_total [OF sq' svs r1, of now k1 r2]
  obtain x k2 where sp: "spawnRandomTile now k1 (pm_grid pm) (spawnValues (config s)) r1 r2
      = Inr (x, k2)"
    by blast
  show ?thesis
    by (cases x) (simp_all add: move_def won pm sp determineGameStatus_Won Let_def)
qed

lemma playMoves_keeps_won:
  assumes "playMoves now k s inputs = Inr rs" "status s = Won"
  shows "\<forall>r\<in>set rs. status (newState r) = Won"
  using assms
proof (induction inputs arbitrary: k s rs)
  case Nil
  then show ?case by simp
next
  case (Cons i inputs)
  obtain d r1 r2 where i: "i = (d, r1, r2)" by (cases i)
  from Cons.prems(1) obtain res k' rs' where
    mv: "move now k s d r1 r2 = Inr (res, k')"
    and rest: "playMoves now k' (newState res) inputs = Inr rs'"
    and rs: "rs = res # rs'"
    by (auto simp: i split: sum.splits)
  have w: "status (newState res) = Won"
    by (rule move_keeps_won [OF Cons.prems(2) mv])
  from Cons.IH [OF rest w] w show ?case by (simp add: rs)
qed

text \<open>
  Claim C7. \<open>determineGameStatus\<close> answers \<open>Won\<close> whenever the current status is \<open>Won\<close>,
  whatever the grid. So a state whose status is \<open>Won\<close> stays \<open>Won\<close> under \<open>move\<close>: every
  result of \<open>move\<close> on it, and every state along a sequence of moves played from it, has
  status \<open>Won\<close>; and \<open>move\<close> does return on such a state when its grid is square, the
  spawn table is not empty and the draw for the cell is in \<open>[0, 1)\<close>.
\<close>

theorem won_is_sticky:
  assumes "status s = Won"
  shows "determineGameStatus g target (status s) = Inr Won
         \<and> (\<forall>res k'. move now k s d r1 r2 = Inr (res, k') \<longrightarrow> status (newState res) = Won)
         \<and> (\<forall>rs. playMoves now k s inputs = Inr rs
               \<longrightarrow> (\<forall>r\<in>set rs. status (newState r) = Won))
         \<and> (squareGrid (grid s) \<and> spawnValues (config s) \<noteq> [] \<and> 0 \<le> r1 \<and> r1 < 1
               \<longrightarrow> (\<exists>res k'. move now k s d r1 r2 = Inr (res, k')))"
  using assms move_keeps_won [OF assms] playMoves_keeps_won [OF _ assms]
    move_total_won [OF assms]
  by (simp add: determineGameStatus_Won)

lemma sliceTo_Cons:
  assumes "1 \<le> toIntegerPart L"
  shows "sliceTo (x # xs) L = x # take (nat (toIntegerPart L) - 1) xs"
proof -
  obtain m where m: "nat (toIntegerPart L) = Suc m"
    using assms by (cases "nat (toIntegerPart L)") auto
  with assms show ?thesis by (simp add: sliceTo_def Let_def)
qed

lemma undo_after_move:
  assumes mv: "move now k s d r1 r2 = Inr (res, k')" and m: "moved res"
    and lim: "1 \<le> toIntegerPart (undoLimit (config s))"
  shows "undo (newState res) =
           GameState (grid s) (score s) (status s)
             (take (nat (toIntegerPart (undoLimit (config s))) - 1) (previousStates s))
             (config s) (moveCount s) (wonAndContinued s)"
    and "config (newState res) = config s"
    and "previousStates (newState res) =
           cloneShallow s # take (nat (toIntegerPart (undoLimit (config s))) - 1) (previousStates s)"
proof -
  from move_result [OF mv] m obtain g sc st where
    res: "newState res = GameState g sc st
            (sliceTo (cloneShallow s # previousStates s) (undoLimit (config s)))
            (config s) (moveCount s + 1) (wonAndContinued s)"
    by (auto simp: unchanged_def)
  show "config (newState res) = config s" by (simp add: res)
  show "previousStates (newState res) =
           cloneShallow s # take (nat (toIntegerPart (undoLimit (config s))) - 1) (previousStates s)"
    by (simp add: res sliceTo_Cons [OF lim])
  show "undo (newState res) =
           GameState (grid s) (score s) (status s)
             (take (nat (toIntegerPart (undoLimit (config s))) - 1) (previousStates s))
             (config s) (moveCount s) (wonAndContinued s)"
    by (simp add: res sliceTo_Cons [OF lim] undo_def cloneShallow_eq)
qed

lemma undo_after_move_exact:
  assumes mv: "move now k s d r1 r2 = Inr (res, k')" and m: "moved res"
    and room: "int (length (previousStates s)) < toIntegerPart (undoLimit (config s))"
  shows "undo (newState res) = s"
    and "length (previousStates (newState res)) = Suc (length (previousStates s))"
proof -
  have lim: "1 \<le> toIntegerPart (undoLimit (config s))" using room by linarith
  have "length (previousStates s) < nat (toIntegerPart (undoLimit (config s)))"
    using room by linarith
  then have "length (previousStates s) \<le> nat (toIntegerPart (undoLimit (config s))) - 1"
    by linarith
  then have tk: "take (nat (toIntegerPart (undoLimit (config s))) - 1) (previousStates s)
            = previousStates s"
    by simp
  have "undo (newState res) =
          GameState (grid s) (score s) (status s) (previousStates s) (config s) (moveCount s)
            (wonAndContinued s)"
    using undo_after_move(1) [OF mv m lim] by (simp only: tk)
  then show "undo (newState res) = s"
    by (simp only: GameState.collapse)
  have "previousStates (newState res) = cloneShallow s # previousStates s"
    using undo_after_move(3) [OF mv m lim] by (simp only: tk)
  then show "length (previousStates (newState res)) = Suc (length (previousStates s))"
    by simp
qed

lemma playMoves_undo:
  assumes "playMoves now k s inputs = Inr rs" "\<forall>r\<in>set rs. moved r"
    and "int (length (previousStates s)) + int (length inputs)
           \<le> toIntegerPart (undoLimit (config s))"
    and "j \<le> length rs"
  shows "(undo ^^ j) (last (s # map newState rs)) = (s # map newState rs) ! (length rs - j)"
  using assms
proof (induction inputs arbitrary: k s rs j)
  case Nil
  then show ?case by simp
next
  case (Cons i inputs)
  obtain d r1 r2 where i: "i = (d, r1, r2)" by (cases i)
  from Cons.prems(1) obtain res k' rs' where
    mv: "move now k s d r1 r2 = Inr (res, k')"
    and rest: "playMoves now k' (newState res) inputs = Inr rs'"
    and rs: "rs = res # rs'"
    by (auto simp: i split: sum.splits)
  have m: "moved res" and ms: "\<forall>r\<in>set rs'. moved r" using Cons.prems(2) rs by auto
  have room: "int (length (previousStates s)) < toIntegerPart (undoLimit (config s))"
    using Cons.prems(3) by simp
  note ex = undo_after_move_exact [OF mv m room]
  have cfg: "config (newState res) = config s"
    using undo_after_move(2) [OF mv m] room by simp
  have room': "int (length (previousStates (newState res))) + int (length inputs)
                 \<le> toIntegerPart (undoLimit (config (newState res)))"
    using Cons.prems(3) by (simp add: ex(2) cfg)
  have IH: "(undo ^^ j') (last (newState res # map newState rs'))
              = (newState res # map newState rs') ! (length rs' - j')"
    if "j' \<le> length rs'" for j'
    by (rule Cons.IH [OF rest ms room' that])
  have last: "last (s # map newState rs) = last (newState res # map newState rs')"
    by (simp add: rs)
  show ?case
  proof (cases "j \<le> length rs'")
    case True
    then have e: "length rs - j = Suc (length rs' - j)" by (simp add: rs)
    have "(s # map newState rs) ! (length rs - j)
            = (newState res # map newState rs') ! (length rs' - j)"
      unfolding e unfolding rs by (simp only: list.map nth_Cons_Suc)
    then show ?thesis using IH [OF True] by (simp only: last)
  next
    case False
    with Cons.prems(4) have j: "j = Suc (length rs')" by (simp add: rs)
    have "(undo ^^ length rs') (last (newState res # map newState rs')) = newState res"
      using IH [of "length rs'"] by simp
    moreover have "(s # map newState rs) ! (length rs - j) = s"
      by (simp add: j rs)
    ultimately show ?thesis by (simp only: j last funpow.simps comp_apply ex(1))
  qed
qed

lemma initializeGame_fresh:
  assumes "initializeGame now k cfg q1 q2 q3 q4 = Inr (s0, k')"
  shows "previousStates s0 = [] \<and> score s0 = 0 \<and> moveCount s0 = 0 \<and> config s0 = cfg
         \<and> status s0 = Playing"
  using assms
  by (auto simp: initializeGame_def Let_def split: if_splits sum.splits prod.splits option.splits)

section \<open>Concrete games: evaluation\<close>

lemma decimal_small:
  "decimal 0 = ''0''" "decimal 1 = ''1''" "decimal (Suc 0) = ''1''" "decimal 2 = ''2''"
  "decimal 3 = ''3''"
  by (simp_all add: decimal.simps)

lemmas spawn_defs = spawnRandomTile_def getEmptyCells_def emptyInRow_def cloneGrid_def
  cloneTile_def copyTile_def selectSpawnValue_def defaultSpawnValues_def createTile_def
  generateTileId_def writeCell_def fixedClock_def decimal_small Let_def

lemmas status_defs = determineGameStatus_def hasWon_def getAllTiles_def rowTiles_def
  hasMovesAvailable_def getEmptyCells_def emptyInRow_def

lemma spawn_eval:
  "spawnRandomTile fixedClock 0 slideGrid defaultSpawnValues 0 0 = Inr (Some spawnedGrid, 1)"
  by (simp add: spawn_defs slideGrid_def spawnedGrid_def tileAt_def upt_3)

lemma init_eval:
  "initializeGame fixedClock 0 (smallConfig m) (1/2) (1/2) (1/2) (1/2) = Inr (startState m, 2)"
proof -
  have v: "validateGameConfig (smallConfig m) = []"
    by (simp add: validateGameConfig_def smallConfig_def defaultSpawnValues_def
        spawnEntryErrors_def bitAnd_def toInt32_def toIntegerPart_def isInteger_def)
  have g: "createEmptyGridOf (gridSize (smallConfig m)) = Inr (createEmptyGrid 3)"
    by (simp add: createEmptyGridOf_def smallConfig_def isInteger_def)
  have s1: "spawnRandomTile fixedClock 0 (createEmptyGrid 3) defaultSpawnValues (1/2) (1/2)
      = Inr (Some [[None, None, None], [None, Some (tileAt ''tile-0-0'' 2 1 1), None],
                   [None, None, None]], 1)"
    by (simp add: spawn_defs createEmptyGrid_def tileAt_def upt_3 numeral_3_eq_3)
  have s2: "spawnRandomTile fixedClock (Suc 0)
      [[None, None, None], [None, Some (tileAt ''tile-0-0'' 2 1 1), None], [None, None, None]]
      defaultSpawnValues (1/2) (1/2) = Inr (Some startGrid, 2)"
    by (simp add: spawn_defs startGrid_def tileAt_def upt_3)
  show ?thesis
    by (simp add: initializeGame_def v g) (simp add: smallConfig_def s1 s2 startState_def)
qed

lemma start_performMove:
  "performMove fixedClock 2 startGrid Left =
     Inr (\<lparr>pm_grid = [[None, None, None], [Some firstMerged, None, None], [None, None, None]],
           pm_moved = True, pm_score = 4, pm_mergedTiles = [firstMerged]\<rparr>, 3)"
  by (simp add: engine_defs startGrid_def firstMerged_def tileAt_def upt_3 fixedClock_def
      decimal_small)

lemma move_eval:
  assumes "undoLimit (smallConfig m) = 10"
  shows "move fixedClock 2 (startState m) Left 0 0 = Inr (firstMove m, 4)"
proof -
  have sp: "spawnRandomTile fixedClock 3
      [[None, None, None], [Some firstMerged, None, None], [None, None, None]]
      defaultSpawnValues 0 0 =
      Inr (Some [[Some (tileAt ''tile-0-3'' 2 0 0), None, None],
                 [Some firstMerged, None, None], [None, None, None]], 4)"
    by (simp add: spawn_defs firstMerged_def tileAt_def upt_3)
  have st: "determineGameStatus
      [[Some (tileAt ''tile-0-3'' 2 0 0), None, None],
       [Some firstMerged, None, None], [None, None, None]] 2048 Playing = Inr Playing"
    by (simp add: status_defs firstMerged_def tileAt_def upt_3)
  have cl: "cloneGameState (startState m) False = startState m"
    by (simp add: cloneGameState_def startState_def cloneGrid_id)
  show ?thesis
    by (simp add: move_def start_performMove cl assms sliceTo_def toIntegerPart_def)
      (simp add: startState_def start_performMove smallConfig_def sp st firstMove_def
        cl [unfolded startState_def smallConfig_def] assms [unfolded smallConfig_def]
        sliceTo_def toIntegerPart_def)
qed

lemma continue_eval: "continueAfterWin wonState = continuedState"
  by (simp add: continueAfterWin_def wonState_def continuedState_def)

lemma continued_move_eval: "move fixedClock 0 continuedState Left 0 0 = Inr (wonAgain, 1)"
proof -
  have pm: "performMove fixedClock 0 (grid continuedState) Left =
      Inr (\<lparr>pm_grid = [[Some (tileAt ''w'' 8 0 0), None, None], [None, None, None],
                        [None, None, None]],
            pm_moved = True, pm_score = 0, pm_mergedTiles = []\<rparr>, 0)"
    by (simp add: engine_defs continuedState_def tileAt_def upt_3)
  have sp: "spawnRandomTile fixedClock 0
      [[Some (tileAt ''w'' 8 0 0), None, None], [None, None, None], [None, None, None]]
      defaultSpawnValues 0 0 =
      Inr (Some [[Some (tileAt ''w'' 8 0 0), Some (tileAt ''tile-0-0'' 2 0 1), None],
                 [None, None, None], [None, None, None]], 1)"
    by (simp add: spawn_defs tileAt_def upt_3)
  have st: "determineGameStatus
      [[Some (tileAt ''w'' 8 0 0), Some (tileAt ''tile-0-0'' 2 0 1), None],
       [None, None, None], [None, None, None]] 8 Playing = Inr Won"
    by (simp add: status_defs tileAt_def)
  have cl: "cloneGameState continuedState False = continuedState"
    by (simp add: cloneGameState_def continuedState_def cloneGrid_id)
  have ul: "undoLimit winConfig = 10"
    by (simp add: undoLimit_def winConfig_def)
  have fields: "status continuedState = Playing" "config continuedState = winConfig"
    "spawnValues winConfig = defaultSpawnValues" "targetValue winConfig = 8"
    "score continuedState = 16" "moveCount continuedState = 5"
    "previousStates continuedState = []" "wonAndContinued continuedState = Some True"
    by (simp_all add: continuedState_def winConfig_def)
  show ?thesis
    by (simp add: move_def pm fields sp st cl ul sliceTo_def toIntegerPart_def wonAgain_def)
      (simp add: continuedState_def)
qed

lemma blocked_eval: "performMove fixedClock 0 blockedGrid Left = Inr (blockedResult, 0)"
  by (simp add: engine_defs blockedGrid_def blockedResult_def tileAt_def upt_3)

section \<open>Claims about the controller\<close>

lemma squareGrid_3:
  "squareGrid [[a, b, c], [d, e, f], [g, h, i]]"
  by (simp add: squareGrid_def squareOf_def)

lemma positionsMatch_3:
  "positionsMatch [[a, b, c], [d, e, f], [g, h, i]] \<longleftrightarrow>
     (\<forall>t. (a = Some t \<longrightarrow> position t = \<lparr>row = 0, col = 0\<rparr>)
        \<and> (b = Some t \<longrightarrow> position t = \<lparr>row = 0, col = 1\<rparr>)
        \<and> (c = Some t \<longrightarrow> position t = \<lparr>row = 0, col = 2\<rparr>)
        \<and> (d = Some t \<longrightarrow> position t = \<lparr>row = 1, col = 0\<rparr>)
        \<and> (e = Some t \<longrightarrow> position t = \<lparr>row = 1, col = 1\<rparr>)
        \<and> (f = Some t \<longrightarrow> position t = \<lparr>row = 1, col = 2\<rparr>)
        \<and> (g = Some t \<longrightarrow> position t = \<lparr>row = 2, col = 0\<rparr>)
        \<and> (h = Some t \<longrightarrow> position t = \<lparr>row = 2, col = 1\<rparr>)
        \<and> (i = Some t \<longrightarrow> position t = \<lparr>row = 2, col = 2\<rparr>))"
  by (simp add: positionsMatch_def numeral_3_eq_3 All_less_Suc nth_Cons') blast

lemma slideGrid_invariant: "gridInvariant slideGrid"
  by (auto simp: gridInvariant_def slideGrid_def squareGrid_3 positionsMatch_3 tileAt_def)

text \<open>
  Claim C3. A state with a tile at the target value, status \<open>Won\<close>, is continued:
  \<open>continueAfterWin\<close> sets status \<open>Playing\<close> and \<open>wonAndContinued = true\<close>. The next
  successful move sets the status back to \<open>Won\<close>: \<open>determineGameStatus\<close> has three
  parameters, the flag passed by \<open>move\<close> is dropped, and \<open>hasWon\<close> holds of the new grid.
\<close>

theorem continued_game_wins_again:
  "continueAfterWin wonState = continuedState
   \<and> status continuedState = Playing
   \<and> wonAndContinued continuedState = Some True
   \<and> hasWon (grid continuedState) (targetValue (config continuedState))
   \<and> move fixedClock 0 continuedState Left 0 0 = Inr (wonAgain, 1)
   \<and> moved wonAgain
   \<and> status (newState wonAgain) = Won"
  by (simp add: continue_eval continued_move_eval)
    (simp add: continuedState_def wonAgain_def winConfig_def hasWon_def getAllTiles_def
      rowTiles_def tileAt_def)

text \<open>
  Claim C4. After \<open>N\<close> successful moves from a fresh game, with \<open>N\<close> at most the undo
  limit of the configuration, \<open>j\<close> applications of \<open>undo\<close> to the last state give back the
  state after move \<open>N - j\<close>, hence its score and move count, and \<open>N\<close> applications give
  score \<open>0\<close> and move count \<open>0\<close>. For every state, whatever its history, when the undo
  limit is at least \<open>1\<close>, \<open>undo\<close> after a successful move has the grid, the score and the
  move count of the state before the move.
\<close>

theorem undo_round_trip:
  "(initializeGame now k0 cfg q1 q2 q3 q4 = Inr (s0, k)
      \<longrightarrow> playMoves now k s0 inputs = Inr rs
      \<longrightarrow> (\<forall>r\<in>set rs. moved r)
      \<longrightarrow> int (length inputs) \<le> toIntegerPart (undoLimit cfg)
      \<longrightarrow> j \<le> length rs
      \<longrightarrow> (undo ^^ j) (last (s0 # map newState rs)) = (s0 # map newState rs) ! (length rs - j)
          \<and> score ((undo ^^ length rs) (last (s0 # map newState rs))) = 0
          \<and> moveCount ((undo ^^ length rs) (last (s0 # map newState rs))) = 0)
   \<and> (move now k s d r1 r2 = Inr (res, k')
      \<longrightarrow> moved res
      \<longrightarrow> 1 \<le> toIntegerPart (undoLimit (config s))
      \<longrightarrow> grid (undo (newState res)) = grid s
          \<and> score (undo (newState res)) = score s
          \<and> moveCount (undo (newState res)) = moveCount s)"
proof (intro conjI impI)
  assume init: "initializeGame now k0 cfg q1 q2 q3 q4 = Inr (s0, k)"
    and play: "playMoves now k s0 inputs = Inr rs"
    and mv: "\<forall>r\<in>set rs. moved r"
    and lim: "int (length inputs) \<le> toIntegerPart (undoLimit cfg)"
    and j: "j \<le> length rs"
  note fresh = initializeGame_fresh [OF init]
  have room: "int (length (previousStates s0)) + int (length inputs)
                \<le> toIntegerPart (undoLimit (config s0))"
    using fresh lim by simp
  show "(undo ^^ j) (last (s0 # map newState rs)) = (s0 # map newState rs) ! (length rs - j)"
    by (rule playMoves_undo [OF play mv room j])
  have all: "(undo ^^ length rs) (last (s0 # map newState rs)) = s0"
    using playMoves_undo [OF play mv room, of "length rs"] by simp
  show "score ((undo ^^ length rs) (last (s0 # map newState rs))) = 0"
    unfolding all using fresh by simp
  show "moveCount ((undo ^^ length rs) (last (s0 # map newState rs))) = 0"
    unfolding all using fresh by simp
next
  assume mv: "move now k s d r1 r2 = Inr (res, k')" and m: "moved res"
    and lim: "1 \<le> toIntegerPart (undoLimit (config s))"
  note u = undo_after_move(1) [OF mv m lim]
  show "grid (undo (newState res)) = grid s" by (simp add: u)
  show "score (undo (newState res)) = score s" by (simp add: u)
  show "moveCount (undo (newState res)) = moveCount s" by (simp add: u)
qed

lemma smallConfig_limit: "undoLimit (smallConfig None) = 10"
  by (simp add: undoLimit_def smallConfig_def)

lemma play_eval:
  "playMoves fixedClock 2 (startState None) [(Left, 0, 0)] = Inr [firstMove None]"
  by (simp add: move_eval [OF smallConfig_limit])

theorem undo_round_trip_witness:
  "initializeGame fixedClock 0 (smallConfig None) (1/2) (1/2) (1/2) (1/2)
     = Inr (startState None, 2)
   \<and> playMoves fixedClock 2 (startState None) [(Left, 0, 0)] = Inr [firstMove None]
   \<and> move fixedClock 2 (startState None) Left 0 0 = Inr (firstMove None, 4)
   \<and> moved (firstMove None)
   \<and> undo (newState (firstMove None)) = startState None
   \<and> score (undo (newState (firstMove None))) = 0
   \<and> moveCount (undo (newState (firstMove None))) = 0
   \<and> grid (undo (newState (firstMove None))) = grid (startState None)"
proof -
  have m: "moved (firstMove None)" by (simp add: firstMove_def)
  have l1: "int (length [(Left, 0::real, 0::real)]) \<le> toIntegerPart (undoLimit (smallConfig None))"
    by (simp add: smallConfig_limit toIntegerPart_def)
  have l2: "1 \<le> toIntegerPart (undoLimit (config (startState None)))"
    by (simp add: startState_def smallConfig_limit toIntegerPart_def)
  from undo_round_trip [of fixedClock 0 "smallConfig None" "1/2" "1/2" "1/2" "1/2"
      "startState None" 2 "[(Left, 0, 0)]" "[firstMove None]" 1 "startState None" Left 0 0
      "firstMove None" 4]
    init_eval [of None] play_eval move_eval [OF smallConfig_limit] m l1 l2
  show ?thesis by simp
qed

lemma zero_limit: "undoLimit (smallConfig (Some 0)) = 10"
  by (simp add: undoLimit_def smallConfig_def)

text \<open>
  Claim C5. Under a configuration with \<open>maxUndoStates = 0\<close> the game is initialised and
  one successful move is played: the new state has one entry in \<open>previousStates\<close>, more
  than \<open>maxUndoStates\<close>. The expression \<open>maxUndoStates || 10\<close> replaces the bound \<open>0\<close> by
  \<open>10\<close>.
\<close>

theorem history_exceeds_zero_bound:
  "initializeGame fixedClock 0 (smallConfig (Some 0)) (1/2) (1/2) (1/2) (1/2)
     = Inr (startState (Some 0), 2)
   \<and> move fixedClock 2 (startState (Some 0)) Left 0 0 = Inr (firstMove (Some 0), 4)
   \<and> moved (firstMove (Some 0))
   \<and> maxUndoStates (config (newState (firstMove (Some 0)))) = Some 0
   \<and> length (previousStates (newState (firstMove (Some 0)))) = 1"
  by (simp add: init_eval move_eval [OF zero_limit])
    (simp add: firstMove_def smallConfig_def)

lemma history_bounded:
  assumes mv: "move now k s d r1 r2 = Inr (res, k')"
    and lim: "0 \<le> toIntegerPart (undoLimit (config s))"
  shows "int (length (previousStates (newState res)))
           \<le> max (int (length (previousStates s))) (toIntegerPart (undoLimit (config s)))"
  using move_result [OF mv] lim
  by (auto simp: unchanged_def sliceTo_def Let_def)

text \<open>With a limit that is not negative, the history never grows beyond the limit
  \<open>maxUndoStates || 10\<close>.\<close>

lemma determineGameStatus_hasWon:
  "hasWon g target \<Longrightarrow> determineGameStatus g target currentStatus = Inr Won"
  by (simp add: determineGameStatus_def)

lemma move_config:
  assumes "move now k s d r1 r2 = Inr (res, k')"
  shows "config (newState res) = config s"
  using move_result [OF assms] by (auto simp: unchanged_def)

lemma playMoves_history_bounded:
  assumes "playMoves now k s inputs = Inr rs"
    and "int (length (previousStates s)) \<le> toIntegerPart (undoLimit (config s))"
  shows "\<forall>r\<in>set rs. int (length (previousStates (newState r)))
           \<le> toIntegerPart (undoLimit (config s))"
  using assms
proof (induction inputs arbitrary: k s rs)
  case Nil
  then show ?case by simp
next
  case (Cons i inputs)
  obtain d r1 r2 where i: "i = (d, r1, r2)" by (cases i)
  from Cons.prems(1) obtain res k' rs' where
    mv: "move now k s d r1 r2 = Inr (res, k')"
    and rest: "playMoves now k' (newState res) inputs = Inr rs'"
    and rs: "rs = res # rs'"
    by (auto simp: i split: sum.splits)
  have lim: "0 \<le> toIntegerPart (undoLimit (config s))" using Cons.prems(2) by linarith
  have b: "int (length (previousStates (newState res))) \<le> toIntegerPart (undoLimit (config s))"
    using history_bounded [OF mv lim] Cons.prems(2) by simp
  have cfg: "config (newState res) = config s" by (rule move_config [OF mv])
  from Cons.IH [OF rest] b cfg show ?case by (simp add: rs)
qed

theorem won_is_sticky_witness:
  "status wonState = Won
   \<and> squareGrid (grid wonState) \<and> spawnValues (config wonState) \<noteq> []
   \<and> (\<exists>res k'. move fixedClock 0 wonState Left 0 0 = Inr (res, k')
         \<and> status (newState res) = Won)"
proof -
  have w: "status wonState = Won" by (simp add: wonState_def)
  have sq: "squareGrid (grid wonState)" by (simp add: wonState_def squareGrid_3)
  have sv: "spawnValues (config wonState) \<noteq> []"
    by (simp add: wonState_def winConfig_def defaultSpawnValues_def)
  from won_is_sticky [OF w, of "grid wonState" 8 fixedClock 0 Left 0 0 "[]"] sq sv
  obtain res k' where "move fixedClock 0 wonState Left 0 0 = Inr (res, k')"
    and "status (newState res) = Won"
    by auto
  with w sq sv show ?thesis by blast
qed

section \<open>Move engine: a grid where nothing can move\<close>

lemma findFarthest_blocked:
  assumes "\<And>nx. getNextCell c d = Some nx \<Longrightarrow> isWithinBounds nx (length G)
             \<Longrightarrow> readCell G nx \<noteq> Null"
  shows "findFarthestPosition c d G m =
           (c, case getNextCell c d of
                 None \<Rightarrow> None
               | Some nx \<Rightarrow> if isWithinBounds nx (length G) then Some nx else None)"
  using assms by (cases "getNextCell c d") (auto simp: findFarthestPosition_def)

lemma ahead_irrefl: "\<not> ahead d c c"
  by (cases d) (simp_all add: ahead_def)

lemma stay_step:
  assumes inv: "stayInv n g k0 (cell # rest) a"
    and sq: "squareOf n g" and pm: "positionsMatch g"
    and inb: "isWithinBounds cell n"
    and later: "\<forall>x\<in>set rest. laterOK d cell x"
    and rest_inb: "\<forall>x\<in>set rest. isWithinBounds x n"
    and stuck: "\<not> canMove g d cell"
  shows "\<exists>a'. moveStep now g d cell a = Inr a' \<and> stayInv n g k0 rest a'"
proof -
  let ?G = "newGrid a"
  have sqG: "squareOf n ?G"
    and same: "\<And>c. isWithinBounds c n \<Longrightarrow> c \<notin> set (cell # rest) \<Longrightarrow> readCell ?G c = readCell g c"
    and empties: "\<forall>c\<in>set (cell # rest). readCell ?G c = Null"
    and nm: "\<not> movedAcc a" and me: "mergedAcc a = []" and sc: "scoreAcc a = 0"
    and kc: "tileIdCounter a = k0"
    using inv by (simp_all add: stayInv_def)
  have lenG: "length ?G = n" and leng: "length g = n"
    using sqG sq by (simp_all add: squareOf_def)
  show ?thesis
  proof (cases "g ! nat (row cell) ! nat (col cell)")
    case None
    then have rd: "readCell g cell = Null"
      using readCell_within [OF sq inb] by (simp add: slotOf_def)
    then have "moveStep now g d cell a = Inr a" by (simp add: moveStep_def)
    moreover have "stayInv n g k0 rest a"
      unfolding stayInv_def
    proof (intro conjI allI impI)
      fix c assume c: "isWithinBounds c n" "c \<notin> set rest"
      show "readCell ?G c = readCell g c"
      proof (cases "c = cell")
        case True
        then show ?thesis using empties rd by simp
      next
        case False
        then show ?thesis using same c by simp
      qed
    qed (use sqG empties nm me sc kc in auto)
    ultimately show ?thesis by blast
  next
    case (Some tile)
    then have rd: "readCell g cell = Filled tile"
      using readCell_within [OF sq inb] by (simp add: slotOf_def)
    have r: "nat (row cell) < length g" and c: "nat (col cell) < length (g ! nat (row cell))"
      using sq inb by (auto simp: squareOf_def isWithinBounds_def)
    have "position tile = \<lparr>row = int (nat (row cell)), col = int (nat (col cell))\<rparr>"
      using pm r c Some by (auto simp: positionsMatch_def)
    then have pos: "position tile = cell"
      using inb by (simp add: isWithinBounds_def cell_eq_iff)
    have nbr: "readCell ?G nx = readCell g nx" "readCell g nx \<noteq> Null"
      "\<And>u. readCell g nx = Filled u \<Longrightarrow> tile_value u \<noteq> tile_value tile"
      if nx: "getNextCell cell d = Some nx" "isWithinBounds nx n" for nx
    proof -
      have ah: "ahead d nx cell" by (rule getNextCell_ahead [OF nx(1)])
      then have "nx \<noteq> cell" using ahead_irrefl by auto
      moreover have "nx \<notin> set rest" using later ah by (auto simp: laterOK_def)
      ultimately show "readCell ?G nx = readCell g nx" using same nx(2) by simp
      from stuck rd nx leng show "readCell g nx \<noteq> Null"
        by (auto simp: canMove_def)
      fix u assume "readCell g nx = Filled u"
      with stuck rd nx leng show "tile_value u \<noteq> tile_value tile"
        by (auto simp: canMove_def)
    qed
    let ?nxt = "case getNextCell cell d of
                  None \<Rightarrow> None
                | Some nx \<Rightarrow> if isWithinBounds nx (length ?G) then Some nx else None"
    have ff: "findFarthestPosition cell d ?G (mergedCells a) = (cell, ?nxt)"
      by (rule findFarthest_blocked) (use nbr lenG in auto)
    have mp: "mergePartner ?G (mergedCells a) tile ?nxt = Inr None"
    proof (cases "getNextCell cell d")
      case None
      then show ?thesis by (simp add: mergePartner_def)
    next
      case nx: (Some nx)
      show ?thesis
      proof (cases "isWithinBounds nx n")
        case False
        then show ?thesis by (simp add: nx lenG mergePartner_def)
      next
        case True
        note n = nbr [OF nx True]
        have "readCell ?G nx = slotOf (?G ! nat (row nx) ! nat (col nx))"
          by (rule readCell_within [OF sqG True])
        then show ?thesis
          using n True
          by (cases "?G ! nat (row nx) ! nat (col nx)")
            (auto simp: nx lenG mergePartner_def slotOf_def)
      qed
    qed
    have same_tile: "Tile (tile_id tile) (tile_value tile) cell (mergedFrom tile) = tile"
      using pos by (cases tile) simp
    note pp = put_props [OF sqG inb, where t = tile]
    let ?a' = "a\<lparr>newGrid := putTile ?G cell tile\<rparr>"
    have res: "moveStep now g d cell a = Inr ?a'"
      by (simp add: moveStep_def rd ff mp same_tile placeTile_def pp(1) pos)
    have "stayInv n g k0 rest ?a'"
      unfolding stayInv_def
    proof (intro conjI allI impI)
      show "squareOf n (newGrid ?a')" using pp(2) by simp
      fix c assume c: "isWithinBounds c n" "c \<notin> set rest"
      show "readCell (newGrid ?a') c = readCell g c"
        using pp(3) [OF c(1)] same c rd by auto
    next
      have "cell \<notin> set rest" using later by (auto simp: laterOK_def)
      then show "\<forall>c\<in>set rest. readCell (newGrid ?a') c = Null"
        using pp(3) empties rest_inb by auto
    qed (use nm me sc kc in auto)
    with res show ?thesis by blast
  qed
qed

lemma stay_loop:
  assumes "stayInv n g k0 cells a"
    and "squareOf n g" "positionsMatch g"
    and "sorted_wrt (laterOK d) cells"
    and "\<forall>x\<in>set cells. isWithinBounds x n"
    and "\<forall>x\<in>set cells. \<not> canMove g d x"
  shows "\<exists>a'. moveLoop now g d cells a = Inr a' \<and> stayInv n g k0 [] a'"
  using assms
proof (induction cells arbitrary: a)
  case Nil
  then show ?case by simp
next
  case (Cons cell rest)
  have "\<exists>a1. moveStep now g d cell a = Inr a1 \<and> stayInv n g k0 rest a1"
    by (rule stay_step [OF Cons.prems(1,2,3)]) (use Cons.prems in auto)
  then obtain a1 where s: "moveStep now g d cell a = Inr a1" and i: "stayInv n g k0 rest a1"
    by blast
  have "\<exists>a'. moveLoop now g d rest a1 = Inr a' \<and> stayInv n g k0 [] a'"
    by (rule Cons.IH [OF i Cons.prems(2,3)]) (use Cons.prems in auto)
  then show ?case by (simp add: s)
qed

lemma square_grid_ext:
  assumes "squareOf n g" "squareOf n h"
    and "\<And>c. isWithinBounds c n \<Longrightarrow> readCell h c = readCell g c"
  shows "h = g"
proof (rule nth_equalityI)
  show "length h = length g" using assms by (simp add: squareOf_def)
next
  fix r assume r: "r < length h"
  then have rn: "r < n" using assms by (simp add: squareOf_def)
  have lh: "length (h ! r) = n" and lg: "length (g ! r) = n"
    using assms rn by (auto simp: squareOf_def)
  show "h ! r = g ! r"
  proof (rule nth_equalityI)
    show "length (h ! r) = length (g ! r)" using lh lg by simp
  next
    fix c assume "c < length (h ! r)"
    then have cn: "c < n" using lh by simp
    let ?c = "\<lparr>row = int r, col = int c\<rparr>"
    have inb: "isWithinBounds ?c n" using rn cn by (simp add: isWithinBounds_def)
    have "slotOf (h ! r ! c) = slotOf (g ! r ! c)"
      using assms(3) [OF inb] readCell_within [OF assms(1) inb] readCell_within [OF assms(2) inb]
      by simp
    then show "h ! r ! c = g ! r ! c"
      by (cases "h ! r ! c"; cases "g ! r ! c") (simp_all add: slotOf_def)
  qed
qed

lemma traversal_covers_nat:
  "r < n \<Longrightarrow> k < n \<Longrightarrow> \<lparr>row = int r, col = int k\<rparr> \<in> set (getTraversalOrder d n)"
  by (cases d) (auto simp: getTraversalOrder_def image_iff)

lemma traversal_covers:
  assumes "isWithinBounds c n"
  shows "c \<in> set (getTraversalOrder d n)"
proof -
  have r: "nat (row c) < n" and k: "nat (col c) < n"
    and c: "c = \<lparr>row = int (nat (row c)), col = int (nat (col c))\<rparr>"
    using assms by (auto simp: isWithinBounds_def cell_eq_iff)
  from traversal_covers_nat [OF r k, of d] c show ?thesis by simp
qed

lemma performMove_stuck:
  assumes "gridInvariant g" "noSlideOrMerge g d"
  shows "performMove now k g d =
           Inr (\<lparr>pm_grid = g, pm_moved = False, pm_score = 0, pm_mergedTiles = []\<rparr>, k)"
proof -
  let ?n = "length g"
  let ?a0 = "\<lparr>newGrid = createEmptyGrid ?n, mergedCells = {}, mergedAcc = [],
               movedAcc = False, scoreAcc = 0, tileIdCounter = k\<rparr>"
  let ?cells = "getTraversalOrder d ?n"
  have sq: "squareOf ?n g" and pm: "positionsMatch g"
    using assms(1) by (simp_all add: gridInvariant_def squareGrid_def)
  have inb: "\<forall>x\<in>set ?cells. isWithinBounds x ?n"
    using traversal_within by blast
  have stuck: "\<forall>x\<in>set ?cells. \<not> canMove g d x"
    using assms(2) by (simp add: noSlideOrMerge_def list_all_iff)
  have init: "stayInv ?n g k ?cells ?a0"
    using inb traversal_covers [of _ ?n d]
    by (auto simp: stayInv_def createEmptyGrid_square createEmptyGrid_read)
  from stay_loop [OF init sq pm traversal_order inb stuck, of now]
  obtain a' where run: "moveLoop now g d ?cells ?a0 = Inr a'"
    and fin: "stayInv ?n g k [] a'"
    by blast
  have "newGrid a' = g"
    by (rule square_grid_ext [OF sq]) (use fin in \<open>auto simp: stayInv_def\<close>)
  with fin show ?thesis
    by (simp add: performMove_def run stayInv_def)
qed

section \<open>Stored positions are pairwise different\<close>

lemma distinct_sorted_wrt: "distinct xs \<longleftrightarrow> sorted_wrt (\<noteq>) xs"
  by (induction xs) auto

lemma rowTiles_nth:
  "rowTiles xs = concat (map (\<lambda>c. case xs ! c of None \<Rightarrow> [] | Some t \<Rightarrow> [t]) [0..<length xs])"
proof -
  have "map (\<lambda>x. case x of None \<Rightarrow> [] | Some t \<Rightarrow> [t]) xs =
        map (\<lambda>c. case xs ! c of None \<Rightarrow> [] | Some t \<Rightarrow> [t]) [0..<length xs]"
    by (rule nth_equalityI) simp_all
  then show ?thesis by (simp add: rowTiles_def)
qed

lemma getAllTiles_nth:
  "getAllTiles g = concat (map (\<lambda>r. rowTiles (g ! r)) [0..<length g])"
proof -
  have "map rowTiles g = map (\<lambda>r. rowTiles (g ! r)) [0..<length g]"
    by (rule nth_equalityI) simp_all
  then show ?thesis by (simp add: getAllTiles_def)
qed

lemma rowTiles_positions:
  assumes "positionsMatch g" "r < length g" "t \<in> set (rowTiles (g ! r))"
  shows "row (position t) = int r"
  using assms
  by (auto simp: rowTiles_nth positionsMatch_def split: option.splits)

lemma rowTiles_distinct:
  assumes "positionsMatch g" "r < length g"
  shows "sorted_wrt (\<noteq>) (map position (rowTiles (g ! r)))"
proof -
  let ?f = "\<lambda>c. map position (case g ! r ! c of None \<Rightarrow> [] | Some t \<Rightarrow> [t])"
  have eq: "map position (rowTiles (g ! r)) = concat (map ?f [0..<length (g ! r)])"
    by (simp add: rowTiles_nth map_concat comp_def)
  have col: "col p = int c" if "c < length (g ! r)" "p \<in> set (?f c)" for c p
    using assms that by (auto simp: positionsMatch_def split: option.splits)
  have ne: "sorted_wrt (\<noteq>) [0..<length (g ! r)]"
    by (rule sorted_wrt_mono_rel [OF _ sorted_wrt_upt]) auto
  show ?thesis
    unfolding eq
  proof (rule sorted_wrt_concat_map)
    fix c show "sorted_wrt (\<noteq>) (?f c)" by (cases "g ! r ! c") simp_all
  next
    show "sorted_wrt (\<lambda>x y. \<forall>a\<in>set (?f x). \<forall>b\<in>set (?f y). a \<noteq> b) [0..<length (g ! r)]"
    proof (rule sorted_wrt_mono_rel [OF _ ne])
      fix x y
      assume x: "x \<in> set [0..<length (g ! r)]" and y: "y \<in> set [0..<length (g ! r)]"
        and xy: "x \<noteq> y"
      show "\<forall>a\<in>set (?f x). \<forall>b\<in>set (?f y). a \<noteq> b"
      proof (intro ballI notI)
        fix a b assume a: "a \<in> set (?f x)" and b: "b \<in> set (?f y)" and ab: "a = b"
        have "col a = int x" using col [OF _ a] x by simp
        moreover have "col b = int y" using col [OF _ b] y by simp
        ultimately show False using ab xy by simp
      qed
    qed
  qed
qed

lemma positions_distinct:
  assumes "positionsMatch g"
  shows "onePerCell g"
proof -
  let ?f = "\<lambda>r. map position (rowTiles (g ! r))"
  have eq: "map position (getAllTiles g) = concat (map ?f [0..<length g])"
    by (simp add: getAllTiles_nth map_concat comp_def)
  have ne: "sorted_wrt (\<noteq>) [0..<length g]"
    by (rule sorted_wrt_mono_rel [OF _ sorted_wrt_upt]) auto
  have "sorted_wrt (\<noteq>) (concat (map ?f [0..<length g]))"
  proof (rule sorted_wrt_concat_map)
    fix r assume "r \<in> set [0..<length g]"
    then show "sorted_wrt (\<noteq>) (?f r)" using rowTiles_distinct [OF assms] by simp
  next
    show "sorted_wrt (\<lambda>x y. \<forall>a\<in>set (?f x). \<forall>b\<in>set (?f y). a \<noteq> b) [0..<length g]"
    proof (rule sorted_wrt_mono_rel [OF _ ne])
      fix x y
      assume x: "x \<in> set [0..<length g]" and y: "y \<in> set [0..<length g]"
        and xy: "x \<noteq> y"
      show "\<forall>a\<in>set (?f x). \<forall>b\<in>set (?f y). a \<noteq> b"
      proof (intro ballI notI)
        fix a b assume a: "a \<in> set (?f x)" and b: "b \<in> set (?f y)" and ab: "a = b"
        have "row a = int x" using rowTiles_positions [OF assms, of x] a x by auto
        moreover have "row b = int y" using rowTiles_positions [OF assms, of y] b y by auto
        ultimately show False using ab xy by simp
      qed
    qed
  qed
  then show ?thesis by (simp add: onePerCell_def eq distinct_sorted_wrt)
qed

section \<open>Claims about rejected moves and the grid invariant\<close>

text \<open>
  Claim C6. When no tile of the grid can slide or merge in the direction (the grid being
  square with every tile storing its own coordinates), and more generally whenever
  \<open>performMove\<close> reports that no tile moved, \<open>move\<close> returns \<open>moved = false\<close>, score gained
  \<open>0\<close>, no merged tiles, and as new state the input state itself: nothing is spawned (in
  the first case no tile id is consumed either) and \<open>previousStates\<close> is unchanged.
\<close>

theorem rejected_move_unchanged:
  "(gridInvariant (grid s) \<and> noSlideOrMerge (grid s) d
      \<longrightarrow> move now k s d r1 r2 =
             Inr (\<lparr>newState = s, moved = False, scoreGained = 0, mergedTiles = []\<rparr>, k))
   \<and> (\<forall>pm k1. performMove now k (grid s) d = Inr (pm, k1) \<and> \<not> pm_moved pm
      \<longrightarrow> (\<exists>k'. move now k s d r1 r2 =
             Inr (\<lparr>newState = s, moved = False, scoreGained = 0, mergedTiles = []\<rparr>, k')))"
proof (intro conjI impI allI)
  assume "gridInvariant (grid s) \<and> noSlideOrMerge (grid s) d"
  then have "performMove now k (grid s) d =
      Inr (\<lparr>pm_grid = grid s, pm_moved = False, pm_score = 0, pm_mergedTiles = []\<rparr>, k)"
    using performMove_stuck [of "grid s" d now k] by blast
  then show "move now k s d r1 r2 =
             Inr (\<lparr>newState = s, moved = False, scoreGained = 0, mergedTiles = []\<rparr>, k)"
    by (simp add: move_def unchanged_def)
next
  fix pm k1
  assume "performMove now k (grid s) d = Inr (pm, k1) \<and> \<not> pm_moved pm"
  then show "\<exists>k'. move now k s d r1 r2 =
             Inr (\<lparr>newState = s, moved = False, scoreGained = 0, mergedTiles = []\<rparr>, k')"
    by (simp add: move_def unchanged_def)
qed

lemma blockedGrid_invariant: "gridInvariant blockedGrid"
  by (auto simp: gridInvariant_def blockedGrid_def squareGrid_3 positionsMatch_3 tileAt_def)

lemma blockedGrid_stuck: "noSlideOrMerge blockedGrid Left"
  by (simp add: noSlideOrMerge_def canMove_def blockedGrid_def getTraversalOrder_def
      readCell_def getNextCell_def isWithinBounds_def tileAt_def upt_3)

theorem rejected_move_unchanged_witness:
  "gridInvariant (grid blockedState) \<and> noSlideOrMerge (grid blockedState) Left
   \<and> performMove fixedClock 0 (grid blockedState) Left = Inr (blockedResult, 0)
   \<and> \<not> pm_moved blockedResult
   \<and> move fixedClock 0 blockedState Left 0 0 =
         Inr (\<lparr>newState = blockedState, moved = False, scoreGained = 0, mergedTiles = []\<rparr>, 0)"
proof -
  have g: "grid blockedState = blockedGrid" by (simp add: blockedState_def)
  have pm: "performMove fixedClock 0 (grid blockedState) Left = Inr (blockedResult, 0)"
    by (simp add: g blocked_eval)
  have nm: "\<not> pm_moved blockedResult" by (simp add: blockedResult_def)
  have inv: "gridInvariant (grid blockedState)" by (simp add: g blockedGrid_invariant)
  have st: "noSlideOrMerge (grid blockedState) Left" by (simp add: g blockedGrid_stuck)
  from rejected_move_unchanged [of blockedState Left fixedClock 0 0 0] pm nm inv st
  show ?thesis by simp
qed

text \<open>
  Claim C9. The structural invariant of a grid (a square matrix of cells, every tile storing
  its own row and column, so that no two tiles claim the same cell) is preserved: on a grid
  that satisfies it \<open>performMove\<close> returns, for every direction, a grid that satisfies it,
  and every grid returned by \<open>spawnRandomTile\<close> satisfies it; \<open>spawnRandomTile\<close> does
  return when the spawn table is not empty and the draw for the cell is in \<open>[0, 1)\<close>.
\<close>

theorem grid_invariant_preserved:
  assumes "gridInvariant g"
  shows "(\<exists>res k'. performMove now k g d = Inr (res, k')
            \<and> gridInvariant (pm_grid res) \<and> onePerCell (pm_grid res))
         \<and> (\<forall>g' k'. spawnRandomTile now k g svs r1 r2 = Inr (Some g', k')
               \<longrightarrow> gridInvariant g' \<and> onePerCell g')
         \<and> (svs \<noteq> [] \<and> 0 \<le> r1 \<and> r1 < 1
               \<longrightarrow> (\<exists>x k'. spawnRandomTile now k g svs r1 r2 = Inr (x, k')))"
proof -
  have sq: "squareGrid g" using assms by (simp add: gridInvariant_def)
  from performMove_correct [OF sq, of now k d]
  obtain res k' where pm: "performMove now k g d = Inr (res, k')"
    and s: "squareOf (length g) (pm_grid res)" and p: "positionsMatch (pm_grid res)"
    by blast
  have "gridInvariant (pm_grid res)"
    using s p by (auto simp: gridInvariant_def squareGrid_def squareOf_def)
  moreover have "onePerCell (pm_grid res)"
    by (rule positions_distinct [OF p])
  moreover have "gridInvariant g' \<and> onePerCell g'"
    if "spawnRandomTile now k g svs r1 r2 = Inr (Some g', k')" for g' k'
    using spawnRandomTile_invariant [OF assms that] positions_distinct [of g']
    by (simp add: gridInvariant_def)
  moreover have "\<exists>x k'. spawnRandomTile now k g svs r1 r2 = Inr (x, k')"
    if "svs \<noteq> [] \<and> 0 \<le> r1 \<and> r1 < 1"
    using spawnRandomTile_total [of "length g" g svs r1 now k r2] sq that
    by (simp add: squareGrid_def)
  ultimately show ?thesis using pm by blast
qed

theorem grid_invariant_preserved_witness:
  "gridInvariant slideGrid
   \<and> (\<exists>res k'. performMove fixedClock 0 slideGrid Left = Inr (res, k')
         \<and> gridInvariant (pm_grid res) \<and> onePerCell (pm_grid res))
   \<and> spawnRandomTile fixedClock 0 slideGrid defaultSpawnValues 0 0 = Inr (Some spawnedGrid, 1)
   \<and> gridInvariant spawnedGrid \<and> onePerCell spawnedGrid"
  using grid_invariant_preserved [OF slideGrid_invariant,
      of fixedClock 0 Left defaultSpawnValues 0 0]
    slideGrid_invariant spawn_eval
  by simp

section \<open>Writes stay inside the grid\<close>

text \<open>Neither \<open>performMove\<close> nor \<open>spawnRandomTile\<close> assigns outside a row, on any
  grid.\<close>

lemma moveStep_no_growth:
  assumes sqG: "squareOf n (newGrid a)" and inb: "isWithinBounds cell n"
  shows "moveStep now g d cell a = Inl TypeError \<or>
         (\<exists>a'. moveStep now g d cell a = Inr a' \<and> squareOf n (newGrid a'))"
proof (cases "readCell g cell")
  case NoRow
  then show ?thesis by (simp add: moveStep_def)
next
  case Undefined
  then show ?thesis by (simp add: moveStep_def)
next
  case Null
  then show ?thesis using sqG by (simp add: moveStep_def)
next
  case (Filled tile)
  let ?G = "newGrid a"
  have lenG: "length ?G = n" using sqG by (simp add: squareOf_def)
  obtain far nxt where ff: "findFarthestPosition cell d ?G (mergedCells a) = (far, nxt)"
    by (cases "findFarthestPosition cell d ?G (mergedCells a)") auto
  have far: "isWithinBounds far n" and nxt: "\<forall>c. nxt = Some c \<longrightarrow> isWithinBounds c n"
    using findFarthestPosition_props [OF ff] lenG inb by auto
  from mergePartner_cases [OF sqG nxt, of "mergedCells a" tile]
  show ?thesis
  proof (elim disjE exE conjE)
    assume mp: "mergePartner ?G (mergedCells a) tile nxt = Inr None"
    show ?thesis
      using put_props(1,2) [OF sqG far]
      by (simp add: moveStep_def Filled ff mp placeTile_def)
  next
    fix nx nt
    assume mp: "mergePartner ?G (mergedCells a) tile nxt = Inr (Some (nx, nt))"
      and nx: "isWithinBounds nx n"
    show ?thesis
      using put_props(1,2) [OF sqG nx]
      by (simp add: moveStep_def Filled ff mp placeTile_def Let_def split: prod.splits)
  qed
qed

lemma moveLoop_no_growth:
  assumes "squareOf n (newGrid a)" "\<forall>x\<in>set cells. isWithinBounds x n"
  shows "moveLoop now g d cells a \<noteq> Inl RowGrowth"
  using assms
proof (induction cells arbitrary: a)
  case Nil
  then show ?case by simp
next
  case (Cons cell rest)
  have inb: "isWithinBounds cell n" using Cons.prems(2) by simp
  from moveStep_no_growth [OF Cons.prems(1) inb, of now g d]
  show ?case
  proof (elim disjE exE conjE)
    assume "moveStep now g d cell a = Inl TypeError"
    then show ?thesis by simp
  next
    fix a' assume s: "moveStep now g d cell a = Inr a'" and sq: "squareOf n (newGrid a')"
    from Cons.IH [OF sq] Cons.prems(2) show ?thesis by (simp add: s)
  qed
qed

lemma performMove_no_growth: "performMove now k g d \<noteq> Inl RowGrowth"
proof -
  let ?n = "length g"
  let ?a0 = "\<lparr>newGrid = createEmptyGrid ?n, mergedCells = {}, mergedAcc = [],
               movedAcc = False, scoreAcc = 0, tileIdCounter = k\<rparr>"
  have "moveLoop now g d (getTraversalOrder d ?n) ?a0 \<noteq> Inl RowGrowth"
    by (rule moveLoop_no_growth [where n = ?n])
      (use traversal_within in \<open>auto simp: createEmptyGrid_square\<close>)
  then show ?thesis
    by (auto simp: performMove_def Let_def split: sum.splits)
qed

lemma spawnRandomTile_no_growth: "spawnRandomTile now k g svs r1 r2 \<noteq> Inl RowGrowth"
proof -
  have sel: "selectSpawnValue (+) svs r2 \<noteq> Inl RowGrowth"
    by (auto simp: selectSpawnValue_def split: option.splits list.splits)
  have wr: "writeCell g c x \<noteq> Inl RowGrowth" if "c \<in> set (getEmptyCells g)" for c x
    using getEmptyCells_member [OF that] by (auto simp: writeCell_def Let_def)
  have mem: "getEmptyCells g ! nat i \<in> set (getEmptyCells g)"
    if "0 \<le> i" "i < int (length (getEmptyCells g))" for i
  proof -
    have "nat i < length (getEmptyCells g)" using that by linarith
    then show ?thesis by (rule nth_mem)
  qed
  show ?thesis
  proof
    assume bad: "spawnRandomTile now k g svs r1 r2 = Inl RowGrowth"
    let ?e = "getEmptyCells g"
    let ?idx = "\<lfloor>r1 * real (length ?e)\<rfloor>"
    from bad have ne: "length ?e \<noteq> 0"
      by (auto simp: spawnRandomTile_def Let_def split: if_splits)
    from bad ne have idx: "0 \<le> ?idx" "?idx < int (length ?e)"
      by (auto simp: spawnRandomTile_def Let_def split: if_splits)
    from bad ne idx sel obtain v where sv: "selectSpawnValue (+) svs r2 = Inr v"
      by (cases "selectSpawnValue (+) svs r2") (auto simp: spawnRandomTile_def Let_def)
    obtain t k1 where ct: "createTile now k (?e ! nat ?idx) v = (t, k1)"
      by (cases "createTile now k (?e ! nat ?idx) v") auto
    from bad ne idx sv ct have "writeCell g (?e ! nat ?idx) (Some t) = Inl RowGrowth"
      by (simp add: spawnRandomTile_def Let_def cloneGrid_id split: sum.splits)
    with wr [OF mem [OF idx]] show False by simp
  qed
qed

section \<open>Agreement with the tests of the repository\<close>

text \<open>The expectations of the unit tests of \<open>performMove\<close>, \<open>hasMovesAvailable\<close>,
  \<open>determineGameStatus\<close> and \<open>selectSpawnValue\<close>, evaluated on the model.\<close>

lemma test_move_right:
  "\<exists>res k'.
     performMove now k
       [[Some (tileAt i1 2 0 0), Some (tileAt i2 4 0 1), None, None],
        emptyRow4, emptyRow4, emptyRow4] Right = Inr (res, k')
     \<and> pm_moved res
     \<and> valuesOfGrid (pm_grid res) =
         [[None, None, Some 2, Some 4], [None, None, None, None],
          [None, None, None, None], [None, None, None, None]]"
  by (simp add: engine_defs upt_4 tileAt_def emptyRow4_def valuesOfGrid_def)

lemma test_move_up:
  "\<exists>res k'.
     performMove now k
       [emptyRow4, emptyRow4,
        [Some (tileAt i1 2 2 0), None, None, None],
        [Some (tileAt i2 4 3 0), None, None, None]] Up = Inr (res, k')
     \<and> pm_moved res
     \<and> valuesOfGrid (pm_grid res) =
         [[Some 2, None, None, None], [Some 4, None, None, None],
          [None, None, None, None], [None, None, None, None]]"
  by (simp add: engine_defs upt_4 tileAt_def emptyRow4_def valuesOfGrid_def)

lemma test_move_down:
  "\<exists>res k'.
     performMove now k
       [[Some (tileAt i1 2 0 0), None, None, None],
        [Some (tileAt i2 4 1 0), None, None, None],
        emptyRow4, emptyRow4] Down = Inr (res, k')
     \<and> pm_moved res
     \<and> valuesOfGrid (pm_grid res) =
         [[None, None, None, None], [None, None, None, None],
          [Some 2, None, None, None], [Some 4, None, None, None]]"
  by (simp add: engine_defs upt_4 tileAt_def emptyRow4_def valuesOfGrid_def)

lemma test_merge_two_pairs:
  "\<exists>res k'.
     performMove now k
       [[Some (tileAt i1 2 0 0), Some (tileAt i2 2 0 1), Some (tileAt i3 4 0 2),
         Some (tileAt i4 4 0 3)],
        emptyRow4, emptyRow4, emptyRow4] Left = Inr (res, k')
     \<and> pm_moved res \<and> pm_score res = 12
     \<and> valuesOfGrid (pm_grid res) =
         [[Some 4, Some 8, None, None], [None, None, None, None],
          [None, None, None, None], [None, None, None, None]]"
  by (simp add: engine_defs upt_4 tileAt_def emptyRow4_def valuesOfGrid_def)

lemma upt_2: "[0..<2] = [0, 1]"
  by (simp add: upt_rec)

lemmas moves_defs = hasMovesAvailable_def getEmptyCells_def emptyInRow_def readCell_def
  adjacentCells_def isWithinBounds_def tileAt_def upt_2 Let_def

lemma test_no_moves:
  "hasMovesAvailable
     [[Some (tileAt i1 2 0 0), Some (tileAt i2 4 0 1)],
      [Some (tileAt i3 8 1 0), Some (tileAt i4 16 1 1)]] = Inr False"
  by (simp add: moves_defs)

lemma test_lost:
  "determineGameStatus
     [[Some (tileAt i1 2 0 0), Some (tileAt i2 4 0 1)],
      [Some (tileAt i3 8 1 0), Some (tileAt i4 16 1 1)]] 2048 Playing = Inr Lost"
  by (simp add: determineGameStatus_def hasWon_def getAllTiles_def rowTiles_def test_no_moves)
    (simp add: tileAt_def)

lemma test_horizontal_merge_available:
  "hasMovesAvailable
     [[Some (tileAt i1 2 0 0), Some (tileAt i2 2 0 1)],
      [Some (tileAt i3 4 1 0), Some (tileAt i4 8 1 1)]] = Inr True"
  by (simp add: moves_defs)

lemma test_vertical_merge_available:
  "hasMovesAvailable
     [[Some (tileAt i1 2 0 0), Some (tileAt i2 4 0 1)],
      [Some (tileAt i3 2 1 0), Some (tileAt i4 8 1 1)]] = Inr True"
  by (simp add: moves_defs)

lemma test_full_grid_stays:
  "\<exists>res k'.
     performMove now k
       [[Some (tileAt i1 2 0 0), Some (tileAt i2 4 0 1)],
        [Some (tileAt i3 8 1 0), Some (tileAt i4 16 1 1)]] Left = Inr (res, k')
     \<and> \<not> pm_moved res"
  by (simp add: engine_defs upt_2 tileAt_def)

lemma test_default_config_valid: "validateGameConfig DEFAULT_GAME_CONFIG = []"
  by (simp add: validateGameConfig_def DEFAULT_GAME_CONFIG_def defaultSpawnValues_def
      spawnEntryErrors_def bitAnd_def toInt32_def toIntegerPart_def isInteger_def)

lemma test_selectSpawnValue:
  "selectSpawnValue (+) defaultSpawnValues 0.5 = Inr 2"
  "selectSpawnValue (+) defaultSpawnValues 0.95 = Inr 4"
  "selectSpawnValue (+) [\<lparr>spawn_value = 2, probability = 0.5\<rparr>,
                         \<lparr>spawn_value = 4, probability = 0.3\<rparr>] 0.99 = Inr 2"
  by (simp_all add: selectSpawnValue_def defaultSpawnValues_def)

section \<open>A continued game returns to Won\<close>

text \<open>A move keeps a tile at or above a target that is not negative: a merge doubles a
  value, a spawn adds a tile. So on every state continued after a win whose grid still holds
  a tile at the target, every successful move sets the status to \<open>Won\<close> again.\<close>

lemma hasWon_iff: "hasWon g target \<longleftrightarrow> (\<exists>u\<in>#tileValues g. target \<le> u)"
  by (auto simp: hasWon_def tileValues_def list_ex_iff)

lemma performMove_keeps_win:
  assumes sq: "squareGrid g" and t: "0 \<le> target" and won: "hasWon g target"
    and pm: "performMove now k g d = Inr (res, k')"
  shows "hasWon (pm_grid res) target"
proof -
  from won obtain w where w: "w \<in># tileValues g" "target \<le> w"
    by (auto simp: hasWon_iff)
  from performMove_correct [OF sq, of now k d] pm
  have "\<forall>w\<in>#tileValues g. 0 \<le> w \<longrightarrow> (\<exists>u\<in>#tileValues (pm_grid res). w \<le> u)"
    by auto
  moreover have "0 \<le> w" using t w(2) by simp
  ultimately obtain u where u: "u \<in># tileValues (pm_grid res)" "w \<le> u"
    using w(1) by blast
  have "target \<le> u" using w(2) u(2) by simp
  with u(1) show ?thesis unfolding hasWon_iff by blast
qed

lemma getEmptyCells_null:
  assumes "squareOf n g" "c \<in> set (getEmptyCells g)"
  shows "isWithinBounds c n \<and> readCell g c = Null"
proof -
  from getEmptyCells_member [OF assms(2)]
  obtain r k where r: "r < length g" and k: "k < length (g ! r)"
    and c: "c = \<lparr>row = int r, col = int k\<rparr>" and e: "g ! r ! k = None"
    by blast
  have inb: "isWithinBounds c n"
    using assms(1) r k by (auto simp: c isWithinBounds_def squareOf_def)
  have "readCell g c = Null"
    using readCell_within [OF assms(1) inb] e by (simp add: c slotOf_def)
  with inb show ?thesis by simp
qed

lemma spawnRandomTile_keeps_win:
  assumes sq: "squareOf n g" and won: "hasWon g target"
    and sp: "spawnRandomTile now k g svs r1 r2 = Inr (Some g', k')"
  shows "hasWon g' target"
proof -
  from spawnRandomTile_cases [OF sq sp]
  obtain c t where mem: "c \<in> set (getEmptyCells g)" and g': "g' = putTile g c t"
    by blast
  from getEmptyCells_null [OF sq mem]
  have inb: "isWithinBounds c n" and empty: "readCell g c = Null" by simp_all
  have "tileValues g' + image_mset tile_value (slotTiles (readCell g c))
          = tileValues g + {#tile_value t#}"
    unfolding g' by (rule put_props(4) [OF sq inb])
  then have eq: "tileValues g' = tileValues g + {#tile_value t#}"
    by (simp add: empty slotTiles_def)
  from won obtain w where "w \<in># tileValues g" "target \<le> w"
    unfolding hasWon_iff by blast
  then show ?thesis unfolding hasWon_iff eq by auto
qed

lemma continued_move_sets_won:
  assumes won: "status s = Won"
    and big: "hasWon (grid s) (targetValue (config s))"
    and tpos: "0 \<le> targetValue (config s)"
    and sq: "squareGrid (grid s)"
    and mv: "move now k (continueAfterWin s) d r1 r2 = Inr (res, k')"
    and m: "moved res"
  shows "status (continueAfterWin s) = Playing
         \<and> wonAndContinued (continueAfterWin s) = Some True
         \<and> status (newState res) = Won"
proof -
  let ?c = "continueAfterWin s"
  have c: "status ?c = Playing" "wonAndContinued ?c = Some True" "grid ?c = grid s"
    "config ?c = config s"
    using won by (simp_all add: continueAfterWin_def)
  from move_result [OF mv] m obtain pm k1 g st where
    pm: "performMove now k (grid s) d = Inr (pm, k1)"
    and sp: "spawnRandomTile now k1 (pm_grid pm) (spawnValues (config s)) r1 r2 = Inr (Some g, k')"
    and ds: "determineGameStatus g (targetValue (config s)) Playing = Inr st"
    and res: "status (newState res) = st"
    by (auto simp: unchanged_def c)
  have w1: "hasWon (pm_grid pm) (targetValue (config s))"
    by (rule performMove_keeps_win [OF sq tpos big pm])
  from performMove_correct [OF sq, of now k d] pm
  have sq': "squareOf (length (grid s)) (pm_grid pm)" by auto
  have "hasWon g (targetValue (config s))"
    by (rule spawnRandomTile_keeps_win [OF sq' w1 sp])
  then have "st = Won"
    using ds by (simp add: determineGameStatus_hasWon)
  with res c show ?thesis by simp
qed

end
